theory Spec2Isabelle
  imports Main "HOL-Library.Word" "HOL-Library.Multiset"
begin

section \<open>Orders and trades (internal/models)\<close>

text \<open>
  Prices and quantities are Go \<open>int64\<close> values: 64-bit words whose addition and
  subtraction wrap and which are compared as signed numbers (\<open><s\<close>, \<open>\<le>s\<close>).
\<close>

type_synonym int64 = "64 word"

datatype OrderStatus = Accepted | PartialFill | Filled | Cancelled

datatype Side = Buy | Sell

datatype OrderType = Limit | Market

record Order =
  ID :: string
  Symbol :: string
  Side :: Side
  Type :: OrderType
  Price :: int64
  OriginalQuantity :: int64
  RemainingQuantity :: int64
  FilledQuantity :: int64
  Status :: OrderStatus
  Timestamp :: int64

text \<open>
  \<open>NewOrder\<close> reads the clock for the \<open>Timestamp\<close> field; the reading is the
  extra argument \<open>now\<close>.
\<close>

definition NewOrder :: "string \<Rightarrow> string \<Rightarrow> Side \<Rightarrow> OrderType \<Rightarrow> int64 \<Rightarrow> int64 \<Rightarrow> int64 \<Rightarrow> Order" where
  "NewOrder oid symbol side orderType price quantity now =
     \<lparr>ID = oid, Symbol = symbol, Side = side, Type = orderType, Price = price,
      OriginalQuantity = quantity, RemainingQuantity = quantity, FilledQuantity = 0,
      Status = Accepted, Timestamp = now\<rparr>"

text \<open>
  The errors of the engine are Go error strings; each distinct message is a constructor:
  "invalid price: must be positive for limit orders", "invalid quantity: must be
  positive", "insufficient liquidity: only %d shares available, requested %d",
  "order not found" and "cannot cancel: order already filled".
\<close>

datatype error =
    InvalidPrice
  | InvalidQuantity
  | InsufficientLiquidity int64 int64
  | OrderNotFound
  | AlreadyFilled

definition Validate :: "Order \<Rightarrow> error option" where
  "Validate ord =
     (if Type ord = Limit \<and> Price ord \<le>s 0 then Some InvalidPrice
      else if OriginalQuantity ord \<le>s 0 then Some InvalidQuantity
      else None)"

text \<open>
  A trade, without its random identifier and its clock reading (neither is read by the
  engine).
\<close>

record Trade =
  BuyerOrderID :: string
  SellerOrderID :: string
  TradePrice :: int64
  TradeQuantity :: int64

definition NewTrade :: "string \<Rightarrow> string \<Rightarrow> int64 \<Rightarrow> int64 \<Rightarrow> Trade" where
  "NewTrade buyerOrderID sellerOrderID price quantity =
     \<lparr>BuyerOrderID = buyerOrderID, SellerOrderID = sellerOrderID,
      TradePrice = price, TradeQuantity = quantity\<rparr>"

section \<open>Memory\<close>

text \<open>
  Orders are shared by pointer between the global registry, the per-book index and the
  price levels, and matching mutates them in place. An order object lives at an address
  of the store; the books and registries hold addresses.
\<close>

type_synonym addr = nat

type_synonym store = "addr \<Rightarrow> Order"

section \<open>The price-ordered tree\<close>

text \<open>
  The red-black tree of the \<open>gods\<close> library is used through \<open>Get\<close>, \<open>Put\<close>,
  \<open>Remove\<close>, \<open>Empty\<close>, \<open>Left\<close> and its iterator only. It is modelled by the list
  of its entries in iteration order, the comparator being the flag \<open>desc\<close>: bids compare
  descending, asks ascending.
\<close>

type_synonym PriceLevel = "addr list"

type_synonym tree = "(int64 \<times> PriceLevel) list"

definition comes_before :: "bool \<Rightarrow> int64 \<Rightarrow> int64 \<Rightarrow> bool" where
  "comes_before desc a b = (if desc then b <s a else a <s b)"

fun tree_get :: "tree \<Rightarrow> int64 \<Rightarrow> PriceLevel option" where
  "tree_get [] k = None"
| "tree_get ((k', v) # t) k = (if k = k' then Some v else tree_get t k)"

fun tree_put :: "bool \<Rightarrow> int64 \<Rightarrow> PriceLevel \<Rightarrow> tree \<Rightarrow> tree" where
  "tree_put desc k v [] = [(k, v)]"
| "tree_put desc k v ((k', v') # t) =
     (if k = k' then (k, v) # t
      else if comes_before desc k k' then (k, v) # (k', v') # t
      else (k', v') # tree_put desc k v t)"

fun tree_remove :: "int64 \<Rightarrow> tree \<Rightarrow> tree" where
  "tree_remove k [] = []"
| "tree_remove k ((k', v) # t) = (if k = k' then t else (k', v) # tree_remove k t)"

section \<open>The order book (internal/matching)\<close>

record OrderBook =
  BookSymbol :: string
  Bids :: tree
  Asks :: tree
  Orders :: "string \<rightharpoonup> addr"

definition NewOrderBook :: "string \<Rightarrow> OrderBook" where
  "NewOrderBook symbol = \<lparr>BookSymbol = symbol, Bids = [], Asks = [], Orders = Map.empty\<rparr>"

definition level_append :: "bool \<Rightarrow> int64 \<Rightarrow> addr \<Rightarrow> tree \<Rightarrow> tree" where
  "level_append desc price a t =
     (case tree_get t price of
        None \<Rightarrow> tree_put desc price [a] t
      | Some existingLevel \<Rightarrow> tree_put desc price (existingLevel @ [a]) t)"

definition AddOrder :: "store \<Rightarrow> addr \<Rightarrow> OrderBook \<Rightarrow> OrderBook" where
  "AddOrder h a ob =
     (if Orders ob (ID (h a)) \<noteq> None then ob
      else
        let ob1 = ob\<lparr>Orders := (Orders ob)(ID (h a) \<mapsto> a)\<rparr> in
        if Side (h a) = Buy
        then ob1\<lparr>Bids := level_append True (Price (h a)) a (Bids ob1)\<rparr>
        else ob1\<lparr>Asks := level_append False (Price (h a)) a (Asks ob1)\<rparr>)"

text \<open>The scan of a price level that cuts out the first order with the given id.\<close>

fun remove_by_id :: "store \<Rightarrow> string \<Rightarrow> PriceLevel \<Rightarrow> PriceLevel" where
  "remove_by_id h oid [] = []"
| "remove_by_id h oid (a # as) = (if ID (h a) = oid then as else a # remove_by_id h oid as)"

definition level_remove :: "store \<Rightarrow> bool \<Rightarrow> int64 \<Rightarrow> string \<Rightarrow> tree \<Rightarrow> tree" where
  "level_remove h desc price oid t =
     (case tree_get t price of
        None \<Rightarrow> t
      | Some level \<Rightarrow>
          let priceLevel = remove_by_id h oid level in
          if priceLevel = [] then tree_remove price t
          else tree_put desc price priceLevel t)"

definition RemoveOrder :: "store \<Rightarrow> string \<Rightarrow> OrderBook \<Rightarrow> addr option \<times> OrderBook" where
  "RemoveOrder h oid ob =
     (case Orders ob oid of
        None \<Rightarrow> (None, ob)
      | Some a \<Rightarrow>
          let ob1 = ob\<lparr>Orders := (Orders ob)(oid := None)\<rparr> in
          if Side (h a) = Buy
          then (Some a, ob1\<lparr>Bids := level_remove h True (Price (h a)) oid (Bids ob1)\<rparr>)
          else (Some a, ob1\<lparr>Asks := level_remove h False (Price (h a)) oid (Asks ob1)\<rparr>))"

text \<open>\<open>Left\<close> of the tree and the head of its price level; \<open>None\<close> is the nil pointer.\<close>

definition best_of :: "tree \<Rightarrow> addr option" where
  "best_of t =
     (case t of
        [] \<Rightarrow> None
      | (price, priceLevel) # rest \<Rightarrow> (case priceLevel of [] \<Rightarrow> None | a # as \<Rightarrow> Some a))"

definition GetBestBid :: "OrderBook \<Rightarrow> addr option" where
  "GetBestBid ob = best_of (Bids ob)"

definition GetBestAsk :: "OrderBook \<Rightarrow> addr option" where
  "GetBestAsk ob = best_of (Asks ob)"

text \<open>
  \<open>CalculateLiquidity\<close>: the inner loop over one price level either returns from the
  function (\<open>Inl\<close>) or falls through to the next level (\<open>Inr\<close>).
\<close>

fun scan_level :: "store \<Rightarrow> int64 \<Rightarrow> int64 \<Rightarrow> PriceLevel \<Rightarrow> int64 + int64" where
  "scan_level h maxNeeded available [] = Inr available"
| "scan_level h maxNeeded available (a # as) =
     (let available' = available + RemainingQuantity (h a) in
      if maxNeeded \<le>s available' then Inl available'
      else scan_level h maxNeeded available' as)"

fun scan_levels :: "store \<Rightarrow> int64 \<Rightarrow> int64 \<Rightarrow> tree \<Rightarrow> int64" where
  "scan_levels h maxNeeded available [] = available"
| "scan_levels h maxNeeded available ((price, priceLevel) # t) =
     (case scan_level h maxNeeded available priceLevel of
        Inl r \<Rightarrow> r
      | Inr available' \<Rightarrow> scan_levels h maxNeeded available' t)"

definition CalculateLiquidity :: "store \<Rightarrow> Side \<Rightarrow> int64 \<Rightarrow> OrderBook \<Rightarrow> int64" where
  "CalculateLiquidity h side maxNeeded ob =
     (let t = (if side = Buy then Asks ob else Bids ob) in
      if t = [] then 0 else scan_levels h maxNeeded 0 t)"

text \<open>
  \<open>GetDepth\<close>, without the clock reading of the snapshot. An entry is the pair of the
  \<open>Price\<close> and \<open>Quantity\<close> fields of \<open>PriceLevelData\<close>.
\<close>

type_synonym PriceLevelData = "int64 \<times> int64"

record OrderBookDepth =
  DepthSymbol :: string
  DepthBids :: "PriceLevelData list"
  DepthAsks :: "PriceLevelData list"

fun total_quantity :: "store \<Rightarrow> int64 \<Rightarrow> PriceLevel \<Rightarrow> int64" where
  "total_quantity h totalQuantity [] = totalQuantity"
| "total_quantity h totalQuantity (a # as) =
     total_quantity h (totalQuantity + RemainingQuantity (h a)) as"

fun depth_side :: "store \<Rightarrow> int \<Rightarrow> int \<Rightarrow> tree \<Rightarrow> PriceLevelData list" where
  "depth_side h depthLimit cnt [] = []"
| "depth_side h depthLimit cnt ((price, priceLevel) # t) =
     (if 0 < depthLimit \<and> depthLimit \<le> cnt then []
      else (price, total_quantity h 0 priceLevel) # depth_side h depthLimit (cnt + 1) t)"

definition GetDepth :: "store \<Rightarrow> int \<Rightarrow> OrderBook \<Rightarrow> OrderBookDepth" where
  "GetDepth h depthLimit ob =
     \<lparr>DepthSymbol = BookSymbol ob,
      DepthBids = depth_side h depthLimit 0 (Bids ob),
      DepthAsks = depth_side h depthLimit 0 (Asks ob)\<rparr>"

section \<open>Metrics (internal/metrics)\<close>

text \<open>The counters of the metrics sink; the latency total depends on the clock only.\<close>

record Metrics =
  OrdersReceived :: int
  OrdersMatched :: int
  OrdersCancelled :: int
  OrdersInBook :: int
  TradesExecuted :: int

definition NewMetrics :: Metrics where
  "NewMetrics = \<lparr>OrdersReceived = 0, OrdersMatched = 0, OrdersCancelled = 0,
                 OrdersInBook = 0, TradesExecuted = 0\<rparr>"

definition IncOrdersReceived :: "Metrics \<Rightarrow> Metrics" where
  "IncOrdersReceived m = m\<lparr>OrdersReceived := OrdersReceived m + 1\<rparr>"

definition IncOrdersMatched :: "int \<Rightarrow> Metrics \<Rightarrow> Metrics" where
  "IncOrdersMatched n m = m\<lparr>OrdersMatched := OrdersMatched m + n\<rparr>"

definition IncOrdersCancelled :: "Metrics \<Rightarrow> Metrics" where
  "IncOrdersCancelled m = m\<lparr>OrdersCancelled := OrdersCancelled m + 1\<rparr>"

definition IncOrdersInBook :: "Metrics \<Rightarrow> Metrics" where
  "IncOrdersInBook m = m\<lparr>OrdersInBook := OrdersInBook m + 1\<rparr>"

definition DecOrdersInBook :: "Metrics \<Rightarrow> Metrics" where
  "DecOrdersInBook m = m\<lparr>OrdersInBook := OrdersInBook m - 1\<rparr>"

definition IncTradesExecuted :: "int \<Rightarrow> Metrics \<Rightarrow> Metrics" where
  "IncTradesExecuted n m = m\<lparr>TradesExecuted := TradesExecuted m + n\<rparr>"

section \<open>Matching\<close>

text \<open>
  What one run of the matching code works on: the memory of the order objects, the
  locked book and the metrics sink.
\<close>

record Matching =
  mem :: store
  book :: OrderBook
  counters :: Metrics

definition getBuyerOrderID :: "Order \<Rightarrow> Order \<Rightarrow> string" where
  "getBuyerOrderID o1 o2 = (if Side o1 = Buy then ID o1 else ID o2)"

definition getSellerOrderID :: "Order \<Rightarrow> Order \<Rightarrow> string" where
  "getSellerOrderID o1 o2 = (if Side o1 = Sell then ID o1 else ID o2)"

text \<open>
  The two updates \<open>executeTrade\<close> makes to an order object: moving a quantity from
  remaining to filled, and setting the status.
\<close>

definition fill :: "store \<Rightarrow> addr \<Rightarrow> int64 \<Rightarrow> store" where
  "fill h a tradeQuantity =
     h(a := (h a)\<lparr>RemainingQuantity := RemainingQuantity (h a) - tradeQuantity,
                    FilledQuantity := FilledQuantity (h a) + tradeQuantity\<rparr>)"

definition set_status :: "store \<Rightarrow> addr \<Rightarrow> OrderStatus \<Rightarrow> store" where
  "set_status h a st = h(a := (h a)\<lparr>Status := st\<rparr>)"

definition trade_quantity :: "store \<Rightarrow> addr \<Rightarrow> addr \<Rightarrow> int64" where
  "trade_quantity h incoming bookOrder =
     (if RemainingQuantity (h bookOrder) <s RemainingQuantity (h incoming)
      then RemainingQuantity (h bookOrder) else RemainingQuantity (h incoming))"

definition executeTrade :: "addr \<Rightarrow> addr \<Rightarrow> Matching \<Rightarrow> Trade \<times> Matching" where
  "executeTrade incoming bookOrder s =
     (let tradeQuantity = trade_quantity (mem s) incoming bookOrder;
          tradePrice = Price (mem s bookOrder);
          trade = NewTrade (getBuyerOrderID (mem s incoming) (mem s bookOrder))
                           (getSellerOrderID (mem s incoming) (mem s bookOrder))
                           tradePrice tradeQuantity;
          h = fill (fill (mem s) incoming tradeQuantity) bookOrder tradeQuantity
      in
      if RemainingQuantity (h bookOrder) = 0
      then
        (trade, s\<lparr>mem := set_status h bookOrder Filled,
                  book := snd (RemoveOrder (set_status h bookOrder Filled)
                                 (ID (set_status h bookOrder Filled bookOrder)) (book s)),
                  counters := DecOrdersInBook (counters s)\<rparr>)
      else
        (trade, s\<lparr>mem := set_status h bookOrder PartialFill\<rparr>))"

text \<open>
  The four \<open>for\<close> statements of \<open>processLimitOrder\<close> and \<open>processMarketOrder\<close> differ in the side
  they consume (fixed by the side of the incoming order, which no iteration changes) and
  in the price check, which only \<open>processLimitOrder\<close> makes. They are the instances of one
  loop. The loop returns \<open>None\<close> when it does not return: it dereferences a nil best
  order, or it never ends.
\<close>

partial_function (option) match_loop ::
  "bool \<Rightarrow> addr \<Rightarrow> Trade list \<Rightarrow> Matching \<Rightarrow> (Trade list \<times> Matching) option" where
  "match_loop isLimit incoming trades s =
     (let ord = mem s incoming;
          buying = (Side ord = Buy);
          opposite = (if buying then Asks (book s) else Bids (book s)) in
      if 0 <s RemainingQuantity ord \<and> opposite \<noteq> [] then
        (case (if buying then GetBestAsk (book s) else GetBestBid (book s)) of
           None \<Rightarrow> None
         | Some best \<Rightarrow>
             if isLimit \<and> (if buying then Price ord <s Price (mem s best)
                            else Price (mem s best) <s Price ord)
             then Some (trades, s)
             else match_loop isLimit incoming
                    (trades @ [fst (executeTrade incoming best s)])
                    (snd (executeTrade incoming best s)))
      else Some (trades, s))"

declare match_loop.simps [code]

definition processLimitOrder :: "addr \<Rightarrow> Matching \<Rightarrow> (Trade list \<times> Matching) option" where
  "processLimitOrder incoming s = match_loop True incoming [] s"

definition processMarketOrder :: "addr \<Rightarrow> Matching \<Rightarrow> (Trade list \<times> Matching) option" where
  "processMarketOrder incoming s = match_loop False incoming [] s"

section \<open>The engine\<close>

text \<open>
  The engine with the memory its order pointers refer to; \<open>next_addr\<close> is the first
  address no order object has been allocated at.
\<close>

record Engine =
  heap :: store
  next_addr :: addr
  OrderBooks :: "string \<rightharpoonup> OrderBook"
  AllOrders :: "string \<rightharpoonup> addr"
  metrics :: Metrics

definition NewEngine :: "store \<Rightarrow> Engine" where
  "NewEngine h = \<lparr>heap = h, next_addr = 0, OrderBooks = Map.empty, AllOrders = Map.empty,
                  metrics = NewMetrics\<rparr>"

definition getOrderBook :: "string \<Rightarrow> Engine \<Rightarrow> OrderBook \<times> Engine" where
  "getOrderBook symbol e =
     (case OrderBooks e symbol of
        Some ob \<Rightarrow> (ob, e)
      | None \<Rightarrow> (NewOrderBook symbol,
                 e\<lparr>OrderBooks := (OrderBooks e)(symbol \<mapsto> NewOrderBook symbol)\<rparr>))"

type_synonym MatchResult = "addr \<times> Trade list"

text \<open>The part of \<open>ProcessOrder\<close> after matching: counters, status, resting.\<close>

definition finish_order :: "addr \<Rightarrow> Trade list \<Rightarrow> Matching \<Rightarrow> Matching" where
  "finish_order a trades s =
     (let tradeCount = int (length trades);
          m1 = IncTradesExecuted tradeCount (counters s);
          m2 = (if 0 < tradeCount then IncOrdersMatched (tradeCount + 1) m1 else m1);
          h = mem s;
          h1 = h(a := (h a)\<lparr>Status :=
                  (if 0 <s FilledQuantity (h a)
                   then (if RemainingQuantity (h a) = 0 then Filled else PartialFill)
                   else Accepted)\<rparr>)
      in
      if 0 <s RemainingQuantity (h1 a) then
        (if Type (h1 a) = Market then s\<lparr>mem := h1, counters := m2\<rparr>
         else s\<lparr>mem := h1, book := AddOrder h1 a (book s), counters := IncOrdersInBook m2\<rparr>)
      else s\<lparr>mem := h1(a := (h1 a)\<lparr>Status := Filled\<rparr>), counters := m2\<rparr>)"

definition ProcessOrder :: "addr \<Rightarrow> Engine \<Rightarrow> ((error + MatchResult) \<times> Engine) option" where
  "ProcessOrder a e =
     (let e1 = e\<lparr>metrics := IncOrdersReceived (metrics e)\<rparr>;
          ord = heap e1 a in
      case Validate ord of
        Some err \<Rightarrow> Some (Inl err, e1)
      | None \<Rightarrow>
          (let e2 = e1\<lparr>AllOrders := (AllOrders e1)(ID ord \<mapsto> a)\<rparr>;
               ob = fst (getOrderBook (Symbol ord) e2);
               e3 = snd (getOrderBook (Symbol ord) e2);
               available = CalculateLiquidity (heap e3) (Side ord) (OriginalQuantity ord) ob
           in
           if Type ord = Market \<and> available <s OriginalQuantity ord
           then Some (Inl (InsufficientLiquidity available (OriginalQuantity ord)),
                      e3\<lparr>AllOrders := (AllOrders e3)(ID ord := None)\<rparr>)
           else
             (let s0 = \<lparr>mem = heap e3, book = ob, counters = metrics e3\<rparr> in
              case (if Type ord = Limit then processLimitOrder a s0
                    else processMarketOrder a s0) of
                None \<Rightarrow> None
              | Some (trades, s1) \<Rightarrow>
                  (let s2 = finish_order a trades s1 in
                   Some (Inr (a, trades),
                         e3\<lparr>heap := mem s2,
                            OrderBooks := (OrderBooks e3)(Symbol ord \<mapsto> book s2),
                            metrics := counters s2\<rparr>)))))"

definition CancelOrder :: "string \<Rightarrow> Engine \<Rightarrow> (error + addr) \<times> Engine" where
  "CancelOrder orderID e =
     (case AllOrders e orderID of
        None \<Rightarrow> (Inl OrderNotFound, e)
      | Some a \<Rightarrow>
          if Status (heap e a) = Filled then (Inl AlreadyFilled, e)
          else if Status (heap e a) = Cancelled then (Inr a, e)
          else
            (let ob = fst (getOrderBook (Symbol (heap e a)) e);
                 e1 = snd (getOrderBook (Symbol (heap e a)) e) in
             if Status (heap e1 a) = Filled then (Inl AlreadyFilled, e1)
             else
               (case RemoveOrder (heap e1) orderID ob of
                  (Some removedOrder, ob') \<Rightarrow>
                    (Inr removedOrder,
                     e1\<lparr>heap := (heap e1)(removedOrder :=
                                   (heap e1 removedOrder)\<lparr>Status := Cancelled\<rparr>),
                        OrderBooks := (OrderBooks e1)(Symbol (heap e a) \<mapsto> ob'),
                        metrics := DecOrdersInBook (IncOrdersCancelled (metrics e1))\<rparr>)
                | (None, ob') \<Rightarrow>
                    (Inr a,
                     e1\<lparr>heap := (heap e1)(a := (heap e1 a)\<lparr>Status := Cancelled\<rparr>),
                        metrics := IncOrdersCancelled (metrics e1)\<rparr>))))"

definition GetOrder :: "string \<Rightarrow> Engine \<Rightarrow> error + addr" where
  "GetOrder orderID e =
     (case AllOrders e orderID of None \<Rightarrow> Inl OrderNotFound | Some a \<Rightarrow> Inr a)"

definition GetOrderBookDepth :: "string \<Rightarrow> int \<Rightarrow> Engine \<Rightarrow> OrderBookDepth \<times> Engine" where
  "GetOrderBookDepth symbol depthLimit e =
     (let ob = fst (getOrderBook symbol e); e1 = snd (getOrderBook symbol e) in
      (GetDepth (heap e1) depthLimit ob, e1))"

section \<open>Callers\<close>

text \<open>
  What the transport does with the engine: a submission allocates a new order object
  with \<open>NewOrder\<close> and hands it to \<open>ProcessOrder\<close>; a cancel and a depth query go
  straight to the engine.
\<close>

datatype request =
    Submit string string Side OrderType int64 int64 int64
  | Cancel string
  | Depth string int

definition allocate :: "Order \<Rightarrow> Engine \<Rightarrow> Engine" where
  "allocate ord e = e\<lparr>heap := (heap e)(next_addr e := ord), next_addr := Suc (next_addr e)\<rparr>"

definition submit ::
  "string \<Rightarrow> string \<Rightarrow> Side \<Rightarrow> OrderType \<Rightarrow> int64 \<Rightarrow> int64 \<Rightarrow> int64 \<Rightarrow> Engine
     \<Rightarrow> ((error + MatchResult) \<times> Engine) option" where
  "submit oid symbol side orderType price quantity now e =
     ProcessOrder (next_addr e)
       (allocate (NewOrder oid symbol side orderType price quantity now) e)"

fun step :: "request \<Rightarrow> Engine \<Rightarrow> Engine option" where
  "step (Submit oid symbol side orderType price quantity now) e =
     map_option snd (submit oid symbol side orderType price quantity now e)"
| "step (Cancel orderID) e = Some (snd (CancelOrder orderID e))"
| "step (Depth symbol depthLimit) e = Some (snd (GetOrderBookDepth symbol depthLimit e))"

fun run :: "request list \<Rightarrow> Engine \<Rightarrow> Engine option" where
  "run [] e = Some e"
| "run (r # rs) e = (case step r e of None \<Rightarrow> None | Some e' \<Rightarrow> run rs e')"

section \<open>Well-formed states\<close>

text \<open>
  The entries of a tree in iteration order: every resting order with the price of its
  level, best price first and, within a level, in the order of the level.
\<close>

definition entry_list :: "tree \<Rightarrow> (int64 \<times> addr) list" where
  "entry_list t = concat (map (\<lambda>(price, priceLevel). map (Pair price) priceLevel) t)"

text \<open>
  What the tree guarantees and \<open>RemoveOrder\<close> maintains: keys in comparator order
  (hence distinct) and no empty price level.
\<close>

definition tree_ok :: "bool \<Rightarrow> tree \<Rightarrow> bool" where
  "tree_ok desc t =
     (sorted_wrt (comes_before desc) (map fst t) \<and> (\<forall>(price, priceLevel) \<in> set t. priceLevel \<noteq> []))"

text \<open>The order objects resting in a book: bids first, then asks.\<close>

definition book_addrs :: "OrderBook \<Rightarrow> addr list" where
  "book_addrs ob = map snd (entry_list (Bids ob)) @ map snd (entry_list (Asks ob))"

text \<open>
  What holds of an order resting in the book of \<open>symbol\<close> on side \<open>side\<close> at
  the entry \<open>e\<close> = (price, address): its own fields agree with where it rests, it is
  a limit order with something left to fill, and the index of the book finds it.
\<close>

definition resting_ok :: "store \<Rightarrow> string \<Rightarrow> OrderBook \<Rightarrow> Side \<Rightarrow> int64 \<times> addr \<Rightarrow> bool" where
  "resting_ok h symbol ob side e =
     (Side (h (snd e)) = side \<and> Price (h (snd e)) = fst e \<and> Symbol (h (snd e)) = symbol \<and>
      Type (h (snd e)) = Limit \<and> 0 <s RemainingQuantity (h (snd e)) \<and>
      0 <s OriginalQuantity (h (snd e)) \<and> Orders ob (ID (h (snd e))) = Some (snd e))"

text \<open>
  The invariant of one book: both trees well formed, no order object resting twice, every
  resting order as above, the index holding resting orders only under their own ids, and
  every bid price below every ask price.
\<close>

definition book_ok :: "store \<Rightarrow> string \<Rightarrow> OrderBook \<Rightarrow> bool" where
  "book_ok h symbol ob =
     (tree_ok True (Bids ob) \<and> tree_ok False (Asks ob) \<and> distinct (book_addrs ob) \<and>
      (\<forall>e \<in> set (entry_list (Bids ob)). resting_ok h symbol ob Buy e) \<and>
      (\<forall>e \<in> set (entry_list (Asks ob)). resting_ok h symbol ob Sell e) \<and>
      (\<forall>oid a. Orders ob oid = Some a \<longrightarrow> a \<in> set (book_addrs ob) \<and> ID (h a) = oid) \<and>
      (\<forall>b \<in> set (entry_list (Bids ob)). \<forall>a \<in> set (entry_list (Asks ob)). fst b <s fst a))"

text \<open>
  The side an incoming order consumes, the side it would rest on, and the price check by
  which a limit order stops.
\<close>

definition opposite_tree :: "addr \<Rightarrow> Matching \<Rightarrow> tree" where
  "opposite_tree incoming s = (if Side (mem s incoming) = Buy then Asks (book s) else Bids (book s))"

definition same_tree :: "addr \<Rightarrow> Matching \<Rightarrow> tree" where
  "same_tree incoming s = (if Side (mem s incoming) = Buy then Bids (book s) else Asks (book s))"

definition not_crossing :: "addr \<Rightarrow> Matching \<Rightarrow> addr \<Rightarrow> bool" where
  "not_crossing incoming s best =
     (if Side (mem s incoming) = Buy then Price (mem s incoming) <s Price (mem s best)
      else Price (mem s best) <s Price (mem s incoming))"

text \<open>The quantity accounting of one order, in integers.\<close>

definition quantities_ok :: "Order \<Rightarrow> bool" where
  "quantities_ok x =
     (0 \<le>s RemainingQuantity x \<and> 0 \<le>s FilledQuantity x \<and>
      sint (FilledQuantity x) + sint (RemainingQuantity x) = sint (OriginalQuantity x))"

text \<open>
  The depth entry of one level: its price and the sum of the remaining quantities of its
  orders, added in \<open>int64\<close>.
\<close>

definition level_total :: "store \<Rightarrow> int64 \<times> PriceLevel \<Rightarrow> PriceLevelData" where
  "level_total h e = (fst e, sum_list (map (\<lambda>a. RemainingQuantity (h a)) (snd e)))"

text \<open>
  The levels a depth query reports: the first \<open>depthLimit\<close> in tree order when the
  limit is positive, all of them otherwise.
\<close>

definition best_levels :: "int \<Rightarrow> tree \<Rightarrow> tree" where
  "best_levels depthLimit t = (if 0 < depthLimit then take (nat depthLimit) t else t)"

text \<open>
  The book \<open>getOrderBook\<close> returns for a symbol: the one the engine holds, or a new
  empty one.
\<close>

definition book_of :: "Engine \<Rightarrow> string \<Rightarrow> OrderBook" where
  "book_of e symbol = (case OrderBooks e symbol of Some ob \<Rightarrow> ob | None \<Rightarrow> NewOrderBook symbol)"

text \<open>
  The exit condition of the matching loop: the incoming order has nothing left, or the
  opposite side is empty, or (for a limit order) the best resting order does not cross.
\<close>

definition loop_done :: "bool \<Rightarrow> addr \<Rightarrow> Matching \<Rightarrow> bool" where
  "loop_done isLimit incoming s =
     (\<not> 0 <s RemainingQuantity (mem s incoming) \<or>
      entry_list (opposite_tree incoming s) = [] \<or>
      (isLimit \<and> (case entry_list (opposite_tree incoming s) of
                     [] \<Rightarrow> False | e # rest \<Rightarrow> not_crossing incoming s (snd e))))"

text \<open>
  Two values of an order object that agree on every field no operation writes.
\<close>

definition static_eq :: "Order \<Rightarrow> Order \<Rightarrow> bool" where
  "static_eq x y =
     (ID x = ID y \<and> Symbol x = Symbol y \<and> Side x = Side y \<and> Type x = Type y \<and>
      Price x = Price y \<and> OriginalQuantity x = OriginalQuantity y \<and> Timestamp x = Timestamp y)"

text \<open>
  An order object's quantities after some fills, compared with before: if the accounting
  was sound it still is, the remaining quantity has not grown and the filled quantity has
  not shrunk.
\<close>

definition quantities_step :: "Order \<Rightarrow> Order \<Rightarrow> bool" where
  "quantities_step x y =
     (quantities_ok x \<longrightarrow>
        quantities_ok y \<and> RemainingQuantity y \<le>s RemainingQuantity x \<and>
        FilledQuantity x \<le>s FilledQuantity y)"

text \<open>
  What the matching loop keeps true of the state \<open>s\<close> it has reached from \<open>s0\<close> with
  incoming order \<open>a\<close>: the book is well formed and does not hold \<open>a\<close>; orders only
  leave it; objects outside the book are untouched; the static fields are unchanged and
  the quantities move one way; the resting counter follows the number of resting orders;
  the incoming side is unchanged and the opposite side has lost a prefix of its entries.
\<close>

definition match_inv :: "string \<Rightarrow> addr \<Rightarrow> Matching \<Rightarrow> Matching \<Rightarrow> bool" where
  "match_inv symbol a s0 s =
     (book_ok (mem s) symbol (book s) \<and> a \<notin> set (book_addrs (book s)) \<and>
      set (book_addrs (book s)) \<subseteq> set (book_addrs (book s0)) \<and>
      (\<forall>x. x \<noteq> a \<and> x \<notin> set (book_addrs (book s0)) \<longrightarrow> mem s x = mem s0 x) \<and>
      (\<forall>x. static_eq (mem s x) (mem s0 x) \<and> quantities_step (mem s0 x) (mem s x)) \<and>
      OrdersInBook (counters s) - int (length (book_addrs (book s)))
        = OrdersInBook (counters s0) - int (length (book_addrs (book s0))) \<and>
      OrdersReceived (counters s) = OrdersReceived (counters s0) \<and>
      OrdersMatched (counters s) = OrdersMatched (counters s0) \<and>
      OrdersCancelled (counters s) = OrdersCancelled (counters s0) \<and>
      TradesExecuted (counters s) = TradesExecuted (counters s0) \<and>
      BookSymbol (book s) = BookSymbol (book s0) \<and>
      same_tree a s = same_tree a s0 \<and>
      (\<exists>k. entry_list (opposite_tree a s) = drop k (entry_list (opposite_tree a s0))))"

text \<open>
  The engine invariant: every book is well formed, is filed under its symbol and holds
  allocated objects only; every allocated object with a positive original quantity has
  sound quantities; the registry maps each id to an allocated object with that id.
\<close>

definition engine_ok :: "Engine \<Rightarrow> bool" where
  "engine_ok e =
     ((\<forall>symbol ob. OrderBooks e symbol = Some ob \<longrightarrow>
         book_ok (heap e) symbol ob \<and> BookSymbol ob = symbol \<and>
         (\<forall>a \<in> set (book_addrs ob). a < next_addr e)) \<and>
      (\<forall>a < next_addr e. 0 <s OriginalQuantity (heap e a) \<longrightarrow> quantities_ok (heap e a)) \<and>
      (\<forall>oid a. AllOrders e oid = Some a \<longrightarrow> a < next_addr e \<and> ID (heap e a) = oid) \<and>
      finite (dom (OrderBooks e)))"

text \<open>
  The incoming order is put into the book after matching: something remains and it is not
  a market order.
\<close>

definition rests :: "addr \<Rightarrow> Matching \<Rightarrow> bool" where
  "rests a s = (0 <s RemainingQuantity (mem s a) \<and> Type (mem s a) \<noteq> Market)"

text \<open>
  The state the matching loop of \<open>ProcessOrder\<close> starts from.
\<close>

definition start_matching :: "Engine \<Rightarrow> string \<Rightarrow> Matching" where
  "start_matching e symbol =
     \<lparr>mem = heap e, book = book_of e symbol, counters = IncOrdersReceived (metrics e)\<rparr>"

text \<open>
  The engine after a successful \<open>ProcessOrder\<close> whose matching and final bookkeeping
  ended in \<open>s\<close>.
\<close>

definition commit :: "Engine \<Rightarrow> addr \<Rightarrow> Matching \<Rightarrow> Engine" where
  "commit e a s =
     e\<lparr>heap := mem s,
       OrderBooks := (OrderBooks e)(Symbol (heap e a) \<mapsto> book s),
       AllOrders := (AllOrders e)(ID (heap e a) \<mapsto> a),
       metrics := counters s\<rparr>"

text \<open>
  The liquidity check of \<open>ProcessOrder\<close> rejects the order.
\<close>

definition illiquid :: "Engine \<Rightarrow> addr \<Rightarrow> bool" where
  "illiquid e a =
     (Type (heap e a) = Market \<and>
      CalculateLiquidity (heap e) (Side (heap e a)) (OriginalQuantity (heap e a))
        (book_of e (Symbol (heap e a))) <s OriginalQuantity (heap e a))"

text \<open>
  The order object rests in no book.
\<close>

definition unbooked :: "Engine \<Rightarrow> addr \<Rightarrow> bool" where
  "unbooked e a = (\<forall>symbol ob. OrderBooks e symbol = Some ob \<longrightarrow> a \<notin> set (book_addrs ob))"

text \<open>
  One trade \<open>t\<close> of the incoming order \<open>i\<close> against the resting order \<open>m\<close>, taking the
  memory from \<open>h\<close> to \<open>h'\<close>: both orders have something remaining and are on opposite
  sides; the trade has the price of the resting order, the smaller of the two remaining
  quantities, the id of the buying order as buyer and of the selling order as seller; the
  filled quantity of both grows and the remaining quantity of both shrinks by the quantity
  of the trade, their other fields but the status stay, and every other order object is
  untouched.
\<close>

definition fills_trade :: "addr \<Rightarrow> addr \<Rightarrow> store \<Rightarrow> store \<Rightarrow> Trade \<Rightarrow> bool" where
  "fills_trade i m h h' t =
     (0 <s RemainingQuantity (h i) \<and> 0 <s RemainingQuantity (h m) \<and>
      Side (h m) \<noteq> Side (h i) \<and>
      TradePrice t = Price (h m) \<and>
      sint (TradeQuantity t) = min (sint (RemainingQuantity (h i))) (sint (RemainingQuantity (h m))) \<and>
      BuyerOrderID t = (if Side (h i) = Buy then ID (h i) else ID (h m)) \<and>
      SellerOrderID t = (if Side (h i) = Sell then ID (h i) else ID (h m)) \<and>
      (\<forall>x. if x = i \<or> x = m
           then sint (FilledQuantity (h' x)) = sint (FilledQuantity (h x)) + sint (TradeQuantity t) \<and>
                sint (RemainingQuantity (h' x)) = sint (RemainingQuantity (h x)) - sint (TradeQuantity t) \<and>
                static_eq (h' x) (h x)
           else h' x = h x))"

text \<open>
  The id a trade records for the resting order, when the incoming order has the given
  side.
\<close>

definition maker_id :: "Side \<Rightarrow> Trade \<Rightarrow> string" where
  "maker_id side t = (if side = Buy then SellerOrderID t else BuyerOrderID t)"

text \<open>
  The history of a run of the matching loop from \<open>s0\<close> to \<open>s\<close> that produced the trades
  \<open>tr\<close>, with \<open>hs\<close> the memory before the first trade and after each trade: trade
  \<open>k\<close> is a trade against the \<open>k\<close>-th entry of the opposite side as it was in
  \<open>s0\<close>, at the price of that entry and (for a limit order) a crossing one; and the
  opposite side has lost exactly the entries traded against, all of them filled
  completely, except that the last one stays, partly filled, when the incoming order ran
  out first.
\<close>

definition match_trace ::
  "bool \<Rightarrow> addr \<Rightarrow> Matching \<Rightarrow> Trade list \<Rightarrow> Matching \<Rightarrow> store list \<Rightarrow> bool" where
  "match_trace isLimit a s0 tr s hs =
     (length hs = Suc (length tr) \<and> hs ! 0 = mem s0 \<and> hs ! length tr = mem s \<and>
      length tr \<le> length (entry_list (opposite_tree a s0)) \<and>
      (\<forall>k<length tr.
         fills_trade a (snd (entry_list (opposite_tree a s0) ! k)) (hs ! k) (hs ! Suc k) (tr ! k) \<and>
         TradePrice (tr ! k) = fst (entry_list (opposite_tree a s0) ! k) \<and>
         maker_id (Side (mem s0 a)) (tr ! k) = ID (mem s0 (snd (entry_list (opposite_tree a s0) ! k))) \<and>
         (isLimit \<longrightarrow> \<not> not_crossing a s0 (snd (entry_list (opposite_tree a s0) ! k)))) \<and>
      ((entry_list (opposite_tree a s) = drop (length tr) (entry_list (opposite_tree a s0)) \<and>
        (\<forall>k<length tr. RemainingQuantity (mem s (snd (entry_list (opposite_tree a s0) ! k))) = 0)) \<or>
       (tr \<noteq> [] \<and> RemainingQuantity (mem s a) = 0 \<and>
        entry_list (opposite_tree a s) = drop (length tr - 1) (entry_list (opposite_tree a s0)) \<and>
        (\<forall>k<length tr - 1. RemainingQuantity (mem s (snd (entry_list (opposite_tree a s0) ! k))) = 0) \<and>
        0 <s RemainingQuantity (mem s (snd (entry_list (opposite_tree a s0) ! (length tr - 1)))))))"

section \<open>Signed 64-bit arithmetic\<close>

lemma sint64_range: "- 9223372036854775808 \<le> sint (x::int64) \<and> sint x < 9223372036854775808"
  using sint_ge [of x] sint_lt [of x] by simp

lemma sint_sub64:
  "0 \<le> sint (b::int64) \<Longrightarrow> sint b \<le> sint a \<Longrightarrow> sint (a - b) = sint a - sint b"
  using sint64_range [of a] sint64_range [of b]
  by (simp add: sint_word_ariths signed_take_bit_int_eq_self)

lemma sint_add64:
  "- 9223372036854775808 \<le> sint (a::int64) + sint b \<Longrightarrow> sint a + sint b < 9223372036854775808 \<Longrightarrow> sint (a + b) = sint a + sint b"
  by (simp add: sint_word_ariths signed_take_bit_int_eq_self)

lemma sint_eq0: "(sint (a::int64) = 0) = (a = 0)"
  by (metis signed_eq_0_iff)

lemma signed_take_bit_le: "- (2 ^ n) \<le> (k::int) \<Longrightarrow> signed_take_bit n k \<le> k"
proof -
  assume a: "- (2 ^ n) \<le> k"
  have "take_bit (Suc n) (k + 2 ^ n) \<le> k + 2 ^ n"
    using a by (simp add: take_bit_int_less_eq_self_iff)
  then show ?thesis
    by (simp add: signed_take_bit_eq_take_bit_shift)
qed

lemma sint_add64_le:
  "- 9223372036854775808 \<le> sint (a::int64) + sint b \<Longrightarrow> sint (a + b) \<le> sint a + sint b"
  using signed_take_bit_le [of 63 "sint a + sint b"]
  by (simp add: sint_word_ariths)

section \<open>The tree operations\<close>

lemma comes_before_irrefl: "\<not> comes_before desc k k"
  by (simp add: comes_before_def word_sless_alt)

lemma comes_before_trans: "comes_before desc a b \<Longrightarrow> comes_before desc b c \<Longrightarrow> comes_before desc a c"
  by (auto simp: comes_before_def word_sless_alt split: if_splits)

lemma comes_before_total: "a \<noteq> b \<Longrightarrow> \<not> comes_before desc a b \<Longrightarrow> comes_before desc b a"
proof -
  assume ne: "a \<noteq> b" and nb: "\<not> comes_before desc a b"
  have "sint a \<noteq> sint b"
  proof
    assume "sint a = sint b"
    then have "sint (a - b) = 0" by (simp add: sint_word_ariths)
    then show False using ne by (simp add: sint_eq0)
  qed
  then show ?thesis using nb
    by (auto simp: comes_before_def word_sless_alt split: if_splits)
qed

lemma tree_get_None_iff: "tree_get t k = None \<longleftrightarrow> k \<notin> fst ` set t"
  by (induction t) (auto split: if_splits)

lemma tree_get_Some_mem: "tree_get t k = Some l \<Longrightarrow> (k, l) \<in> set t"
  by (induction t) (auto split: if_splits)

lemma sorted_keys_get:
  "sorted_wrt (comes_before desc) (map fst t) \<Longrightarrow> (k, l) \<in> set t \<Longrightarrow> tree_get t k = Some l"
  by (induction t) (force simp: comes_before_irrefl)+

lemma tree_put_keys: "fst ` set (tree_put desc k v t) = insert k (fst ` set t)"
  by (induction t) (force split: if_splits)+

lemma tree_put_sorted:
  "sorted_wrt (comes_before desc) (map fst t) \<Longrightarrow> sorted_wrt (comes_before desc) (map fst (tree_put desc k v t))"
proof (induction t)
  case Nil
  then show ?case by simp
next
  case (Cons x t)
  obtain k' v' where x: "x = (k', v')" by (cases x)
  show ?case
  proof (cases "k = k'")
    case True
    with Cons.prems x show ?thesis by simp
  next
    case False
    show ?thesis
    proof (cases "comes_before desc k k'")
      case True
      with Cons.prems x False show ?thesis
        by (auto intro: comes_before_trans)
    next
      case nb: False
      have "\<forall>y \<in> set (map fst (tree_put desc k v t)). comes_before desc k' y"
      proof
        fix y assume "y \<in> set (map fst (tree_put desc k v t))"
        then have "y \<in> insert k (fst ` set t)" using tree_put_keys [of desc k v t] by simp
        then show "comes_before desc k' y"
          using Cons.prems x False nb comes_before_total [of k k' desc] by auto
      qed
      with Cons x False nb show ?thesis by simp
    qed
  qed
qed

lemma tree_remove_set: "set (tree_remove k t) \<subseteq> set t"
  by (induction t) (auto split: if_splits)

lemma tree_remove_sorted:
  "sorted_wrt (comes_before desc) (map fst t) \<Longrightarrow> sorted_wrt (comes_before desc) (map fst (tree_remove k t))"
proof (induction t)
  case Nil
  then show ?case by simp
next
  case (Cons x t)
  obtain k' v' where x: "x = (k', v')" by (cases x)
  have "\<forall>y \<in> set (map fst (tree_remove k t)). comes_before desc k' y"
    using Cons.prems x tree_remove_set [of k t] by auto
  with Cons x show ?case by simp
qed

lemma tree_put_set: "set (tree_put desc k v t) \<subseteq> insert (k, v) (set t)"
  by (induction t) (auto split: if_splits)

lemma tree_put_ok: "tree_ok desc t \<Longrightarrow> v \<noteq> [] \<Longrightarrow> tree_ok desc (tree_put desc k v t)"
  unfolding tree_ok_def using tree_put_set [of desc k v t] by (auto simp: tree_put_sorted)

lemma tree_remove_ok: "tree_ok desc t \<Longrightarrow> tree_ok desc (tree_remove k t)"
  unfolding tree_ok_def using tree_remove_set [of k t] by (auto simp: tree_remove_sorted)

lemma entry_list_Nil [simp]: "entry_list [] = []"
  by (simp add: entry_list_def)

lemma entry_list_Cons [simp]: "entry_list ((p, l) # t) = map (Pair p) l @ entry_list t"
  by (simp add: entry_list_def)

lemma mset_put_absent:
  "tree_get t k = None \<Longrightarrow> mset (entry_list (tree_put desc k v t)) = mset (map (Pair k) v) + mset (entry_list t)"
  by (induction t) (auto split: if_splits)

lemma mset_put_present:
  "sorted_wrt (comes_before desc) (map fst t) \<Longrightarrow> tree_get t k = Some l \<Longrightarrow>
   mset (entry_list (tree_put desc k v t)) + mset (map (Pair k) l) = mset (map (Pair k) v) + mset (entry_list t)"
proof (induction t)
  case Nil
  then show ?case by simp
next
  case (Cons x t)
  obtain k' v' where x: "x = (k', v')" by (cases x)
  show ?case
  proof (cases "k = k'")
    case True
    with Cons.prems x show ?thesis by simp
  next
    case False
    have mem: "(k, l) \<in> set t" using Cons.prems x False by (auto dest: tree_get_Some_mem)
    then have "comes_before desc k' k" using Cons.prems x by force
    then have "\<not> comes_before desc k k'"
      using comes_before_trans comes_before_irrefl by blast
    with Cons x False show ?thesis by simp
  qed
qed

lemma mset_remove_present:
  "tree_get t k = Some l \<Longrightarrow>
   mset (entry_list (tree_remove k t)) + mset (map (Pair k) l) = mset (entry_list t)"
  by (induction t) (auto split: if_splits)

lemma level_append_ok: "tree_ok desc t \<Longrightarrow> tree_ok desc (level_append desc p a t)"
  by (auto simp: level_append_def tree_put_ok split: option.splits)

lemma level_append_mset:
  "tree_ok desc t \<Longrightarrow> mset (entry_list (level_append desc p a t)) = add_mset (p, a) (mset (entry_list t))"
proof (cases "tree_get t p")
  case None
  then show ?thesis by (simp add: level_append_def mset_put_absent)
next
  case (Some l)
  assume "tree_ok desc t"
  then have srt: "sorted_wrt (comes_before desc) (map fst t)"
    by (simp add: tree_ok_def)
  have lr: "level_append desc p a t = tree_put desc p (l @ [a]) t"
    using Some by (simp add: level_append_def)
  have "mset (entry_list (tree_put desc p (l @ [a]) t)) + mset (map (Pair p) l)
    = mset (map (Pair p) (l @ [a])) + mset (entry_list t)"
    using srt Some by (rule mset_put_present)
  then have "mset (entry_list (tree_put desc p (l @ [a]) t)) + mset (map (Pair p) l)
    = add_mset (p, a) (mset (entry_list t)) + mset (map (Pair p) l)"
    by simp
  then show ?thesis by (simp only: lr add_right_cancel)
qed

lemma remove_by_id_mset:
  "a \<in> set l \<Longrightarrow> ID (h a) = oid \<Longrightarrow> (\<forall>b \<in> set l. ID (h b) = oid \<longrightarrow> b = a) \<Longrightarrow>
   add_mset a (mset (remove_by_id h oid l)) = mset l"
proof (induction l)
  case Nil
  then show ?case by simp
next
  case (Cons x l)
  show ?case
  proof (cases "ID (h x) = oid")
    case True
    then have "x = a" using Cons.prems(3) by simp
    then show ?thesis using True by simp
  next
    case False
    then have "x \<noteq> a" using Cons.prems(2) by auto
    then have "a \<in> set l" using Cons.prems(1) by simp
    moreover have "\<forall>b \<in> set l. ID (h b) = oid \<longrightarrow> b = a" using Cons.prems(3) by simp
    ultimately have "add_mset a (mset (remove_by_id h oid l)) = mset l"
      using Cons.IH Cons.prems(2) by blast
    then have "add_mset x (add_mset a (mset (remove_by_id h oid l))) = add_mset x (mset l)"
      by (simp only:)
    then show ?thesis using False by (simp add: add_mset_commute)
  qed
qed

lemma remove_by_id_subset: "set (remove_by_id h oid l) \<subseteq> set l"
  by (induction l) auto

lemma level_remove_ok: "tree_ok desc t \<Longrightarrow> tree_ok desc (level_remove h desc p oid t)"
  by (auto simp: level_remove_def Let_def tree_put_ok tree_remove_ok split: option.splits)

lemma entry_list_mem: "((p, a) \<in> set (entry_list t)) = (\<exists>l. (p, l) \<in> set t \<and> a \<in> set l)"
  by (induction t) auto

lemma mset_cancel_aux:
  fixes X :: "'a multiset"
  assumes "X + L = R + E" and "add_mset x R = L"
  shows "add_mset x X = E"
proof -
  have "add_mset x X + R = X + add_mset x R" by simp
  also have "\<dots> = X + L" by (simp only: assms(2))
  also have "\<dots> = R + E" by (rule assms(1))
  also have "\<dots> = E + R" by (simp only: add.commute)
  finally show ?thesis by (simp only: add_right_cancel)
qed

lemma level_remove_mset:
  assumes ok: "tree_ok desc t" and mem: "(p, a) \<in> set (entry_list t)" and id: "ID (h a) = oid"
    and uniq: "\<forall>e \<in> set (entry_list t). ID (h (snd e)) = oid \<longrightarrow> snd e = a"
  shows "add_mset (p, a) (mset (entry_list (level_remove h desc p oid t))) = mset (entry_list t)"
proof -
  from mem obtain l where l: "(p, l) \<in> set t" "a \<in> set l" by (auto simp: entry_list_mem)
  have get: "tree_get t p = Some l"
    using ok l by (auto simp: tree_ok_def intro: sorted_keys_get)
  have u: "\<forall>b \<in> set l. ID (h b) = oid \<longrightarrow> b = a"
  proof (intro ballI impI)
    fix b assume b: "b \<in> set l" "ID (h b) = oid"
    then have "(p, b) \<in> set (entry_list t)" using l by (auto simp: entry_list_mem)
    with uniq b show "b = a" by force
  qed
  have r: "add_mset a (mset (remove_by_id h oid l)) = mset l"
    using remove_by_id_mset [OF l(2) id u] .
  then have r': "add_mset (p, a) (mset (map (Pair p) (remove_by_id h oid l))) = mset (map (Pair p) l)"
    unfolding mset_map r [symmetric] by simp
  show ?thesis
  proof (cases "remove_by_id h oid l = []")
    case True
    have lr: "level_remove h desc p oid t = tree_remove p t"
      using True get by (simp add: level_remove_def)
    have "mset (entry_list (tree_remove p t)) + mset (map (Pair p) l) = {#} + mset (entry_list t)"
      using mset_remove_present [OF get] by simp
    moreover have "add_mset (p, a) {#} = mset (map (Pair p) l)"
      using r' True by simp
    ultimately have "add_mset (p, a) (mset (entry_list (tree_remove p t))) = mset (entry_list t)"
      by (rule mset_cancel_aux)
    then show ?thesis by (simp only: lr)
  next
    case False
    have lr: "level_remove h desc p oid t = tree_put desc p (remove_by_id h oid l) t"
      using False get by (simp add: level_remove_def)
    have srt: "sorted_wrt (comes_before desc) (map fst t)"
      using ok by (simp add: tree_ok_def)
    have "mset (entry_list (tree_put desc p (remove_by_id h oid l) t)) + mset (map (Pair p) l)
       = mset (map (Pair p) (remove_by_id h oid l)) + mset (entry_list t)"
      using srt get by (rule mset_put_present)
    then have "add_mset (p, a) (mset (entry_list (tree_put desc p (remove_by_id h oid l) t)))
       = mset (entry_list t)"
      using r' by (rule mset_cancel_aux)
    then show ?thesis by (simp only: lr)
  qed
qed

lemma remove_by_id_cong:
  "\<forall>a \<in> set l. ID (h' a) = ID (h a) \<Longrightarrow> remove_by_id h' oid l = remove_by_id h oid l"
  by (induction l) auto

section \<open>Adding to and removing from a book\<close>

lemma distinct_add_mset:
  "mset ys = add_mset a (mset xs) \<Longrightarrow> distinct xs \<Longrightarrow> a \<notin> set xs \<Longrightarrow> distinct ys"
proof -
  assume "mset ys = add_mset a (mset xs)" and d: "distinct xs" "a \<notin> set xs"
  then have "mset ys = mset (a # xs)" by simp
  then have "distinct ys = distinct (a # xs)" by (rule mset_eq_imp_distinct_iff)
  with d show ?thesis by simp
qed

lemma distinct_remove_mset:
  assumes "add_mset a (mset ys) = mset xs" and "distinct xs"
  shows "distinct ys \<and> a \<notin> set ys \<and> set xs = insert a (set ys)"
proof -
  have m: "mset (a # ys) = mset xs" using assms(1) by simp
  then have "distinct (a # ys) = distinct xs" by (rule mset_eq_imp_distinct_iff)
  moreover have "set (a # ys) = set xs" using m by (rule mset_eq_setD)
  ultimately show ?thesis using assms(2) by auto
qed

lemma level_append_set:
  "tree_ok desc t \<Longrightarrow> set (entry_list (level_append desc p a t)) = insert (p, a) (set (entry_list t))"
  using arg_cong [OF level_append_mset [of desc t p a], of set_mset] by simp

lemma book_addrs_mem:
  "(a \<in> set (book_addrs ob)) =
   ((\<exists>p. (p, a) \<in> set (entry_list (Bids ob))) \<or> (\<exists>p. (p, a) \<in> set (entry_list (Asks ob))))"
  by (force simp: book_addrs_def)

lemma book_ok_frame:
  assumes ok: "book_ok h symbol ob"
    and same: "\<forall>a \<in> set (book_addrs ob). ID (h' a) = ID (h a) \<and> Side (h' a) = Side (h a) \<and>
        Price (h' a) = Price (h a) \<and> Symbol (h' a) = Symbol (h a) \<and> Type (h' a) = Type (h a) \<and>
        OriginalQuantity (h' a) = OriginalQuantity (h a) \<and> 0 <s RemainingQuantity (h' a)"
  shows "book_ok h' symbol ob"
proof -
  have r: "resting_ok h' symbol ob side e"
    if "resting_ok h symbol ob side e" "snd e \<in> set (book_addrs ob)" for side e
    using that same by (simp add: resting_ok_def)
  have b: "snd e \<in> set (book_addrs ob)" if "e \<in> set (entry_list (Bids ob))" for e
  proof -
    obtain p x where e: "e = (p, x)" by (cases e)
    show ?thesis using that unfolding e by (auto simp: book_addrs_mem)
  qed
  have a: "snd e \<in> set (book_addrs ob)" if "e \<in> set (entry_list (Asks ob))" for e
  proof -
    obtain p x where e: "e = (p, x)" by (cases e)
    show ?thesis using that unfolding e by (auto simp: book_addrs_mem)
  qed
  show ?thesis
    unfolding book_ok_def
  proof (intro conjI ballI allI impI)
    show "tree_ok True (Bids ob)" "tree_ok False (Asks ob)" "distinct (book_addrs ob)"
      using ok by (simp_all add: book_ok_def)
    show "resting_ok h' symbol ob Buy e" if "e \<in> set (entry_list (Bids ob))" for e
      using that ok r b by (simp add: book_ok_def)
    show "resting_ok h' symbol ob Sell e" if "e \<in> set (entry_list (Asks ob))" for e
      using that ok r a by (simp add: book_ok_def)
    show "x \<in> set (book_addrs ob)" if "Orders ob oid = Some x" for oid x
      using that ok by (simp add: book_ok_def)
    show "ID (h' x) = oid" if "Orders ob oid = Some x" for oid x
      using that ok same by (simp add: book_ok_def)
    show "fst x <s fst y" if "x \<in> set (entry_list (Bids ob))" "y \<in> set (entry_list (Asks ob))" for x y
      using that ok by (simp add: book_ok_def)
  qed
qed

lemma AddOrder_ok:
  assumes ok: "book_ok h symbol ob"
    and fresh: "a \<notin> set (book_addrs ob)"
    and flds: "Symbol (h a) = symbol" "Type (h a) = Limit" "0 <s RemainingQuantity (h a)"
      "0 <s OriginalQuantity (h a)"
    and nb: "Side (h a) = Buy \<longrightarrow> (\<forall>e \<in> set (entry_list (Asks ob)). Price (h a) <s fst e)"
    and ns: "Side (h a) = Sell \<longrightarrow> (\<forall>e \<in> set (entry_list (Bids ob)). fst e <s Price (h a))"
  shows "book_ok h symbol (AddOrder h a ob)"
proof (cases "Orders ob (ID (h a)) = None")
  case False
  then show ?thesis using ok by (simp add: AddOrder_def)
next
  case None: True
  have tb: "tree_ok True (Bids ob)" and ta: "tree_ok False (Asks ob)"
    using ok by (simp_all add: book_ok_def)
  have old: "resting_ok h symbol (ob\<lparr>Orders := (Orders ob)(ID (h a) \<mapsto> a)\<rparr>) side e"
    if "resting_ok h symbol ob side e" for side e
    using that None by (auto simp: resting_ok_def)
  have idx: "x \<in> set (book_addrs ob) \<and> ID (h x) = oid" if "Orders ob oid = Some x" for oid x
    using that ok by (simp add: book_ok_def)
  show ?thesis
  proof (cases "Side (h a)")
    case Buy
    let ?ob = "ob\<lparr>Orders := (Orders ob)(ID (h a) \<mapsto> a), Bids := level_append True (Price (h a)) a (Bids ob)\<rparr>"
    have eq: "AddOrder h a ob = ?ob"
      using None Buy by (simp add: AddOrder_def Let_def)
    have s: "set (entry_list (Bids ?ob)) = insert (Price (h a), a) (set (entry_list (Bids ob)))"
      using tb by (simp add: level_append_set)
    have m: "mset (book_addrs ?ob) = add_mset a (mset (book_addrs ob))"
      using tb by (simp add: book_addrs_def level_append_mset)
    have new: "resting_ok h symbol ?ob Buy (Price (h a), a)"
      using flds Buy by (simp add: resting_ok_def)
    have "book_ok h symbol ?ob"
      unfolding book_ok_def
    proof (intro conjI ballI allI impI)
      show "tree_ok True (Bids ?ob)" using tb by (simp add: level_append_ok)
      show "tree_ok False (Asks ?ob)" using ta by simp
      show "distinct (book_addrs ?ob)"
        using m ok fresh by (auto intro: distinct_add_mset simp: book_ok_def)
      show "resting_ok h symbol ?ob Buy e" if "e \<in> set (entry_list (Bids ?ob))" for e
      proof (cases "e = (Price (h a), a)")
        case True
        then show ?thesis using new by simp
      next
        case False
        then have "e \<in> set (entry_list (Bids ob))" using that s by auto
        then have "resting_ok h symbol ob Buy e" using ok by (simp add: book_ok_def)
        then show ?thesis using None by (auto simp: resting_ok_def)
      qed
      show "resting_ok h symbol ?ob Sell e" if "e \<in> set (entry_list (Asks ?ob))" for e
      proof -
        have "resting_ok h symbol ob Sell e" using that ok by (simp add: book_ok_def)
        then show ?thesis using None by (auto simp: resting_ok_def)
      qed
      show "x \<in> set (book_addrs ?ob)" if "Orders ?ob oid = Some x" for oid x
        using that idx [of oid x] arg_cong [OF m, of set_mset]
        by (auto split: if_splits)
      show "ID (h x) = oid" if "Orders ?ob oid = Some x" for oid x
        using that idx [of oid x] by (auto split: if_splits)
      show "fst x <s fst y" if "x \<in> set (entry_list (Bids ?ob))" "y \<in> set (entry_list (Asks ?ob))" for x y
        using that s nb Buy ok by (auto simp: book_ok_def)
    qed
    then show ?thesis by (simp only: eq)
  next
    case Sell
    let ?ob = "ob\<lparr>Orders := (Orders ob)(ID (h a) \<mapsto> a), Asks := level_append False (Price (h a)) a (Asks ob)\<rparr>"
    have eq: "AddOrder h a ob = ?ob"
      using None Sell by (simp add: AddOrder_def Let_def)
    have s: "set (entry_list (Asks ?ob)) = insert (Price (h a), a) (set (entry_list (Asks ob)))"
      using ta by (simp add: level_append_set)
    have m: "mset (book_addrs ?ob) = add_mset a (mset (book_addrs ob))"
      using ta by (simp add: book_addrs_def level_append_mset)
    have new: "resting_ok h symbol ?ob Sell (Price (h a), a)"
      using flds Sell by (simp add: resting_ok_def)
    have "book_ok h symbol ?ob"
      unfolding book_ok_def
    proof (intro conjI ballI allI impI)
      show "tree_ok True (Bids ?ob)" using tb by simp
      show "tree_ok False (Asks ?ob)" using ta by (simp add: level_append_ok)
      show "distinct (book_addrs ?ob)"
        using m ok fresh by (auto intro: distinct_add_mset simp: book_ok_def)
      show "resting_ok h symbol ?ob Sell e" if "e \<in> set (entry_list (Asks ?ob))" for e
      proof (cases "e = (Price (h a), a)")
        case True
        then show ?thesis using new by simp
      next
        case False
        then have "e \<in> set (entry_list (Asks ob))" using that s by auto
        then have "resting_ok h symbol ob Sell e" using ok by (simp add: book_ok_def)
        then show ?thesis using None by (auto simp: resting_ok_def)
      qed
      show "resting_ok h symbol ?ob Buy e" if "e \<in> set (entry_list (Bids ?ob))" for e
      proof -
        have "resting_ok h symbol ob Buy e" using that ok by (simp add: book_ok_def)
        then show ?thesis using None by (auto simp: resting_ok_def)
      qed
      show "x \<in> set (book_addrs ?ob)" if "Orders ?ob oid = Some x" for oid x
        using that idx [of oid x] arg_cong [OF m, of set_mset]
        by (auto split: if_splits)
      show "ID (h x) = oid" if "Orders ?ob oid = Some x" for oid x
        using that idx [of oid x] by (auto split: if_splits)
      show "fst x <s fst y" if "x \<in> set (entry_list (Bids ?ob))" "y \<in> set (entry_list (Asks ?ob))" for x y
        using that s ns Sell ok by (auto simp: book_ok_def)
    qed
    then show ?thesis by (simp only: eq)
  qed
qed

lemma level_remove_cong:
  "\<forall>a. ID (h' a) = ID (h a) \<Longrightarrow> level_remove h' desc p oid t = level_remove h desc p oid t"
  by (simp add: level_remove_def remove_by_id_cong [of _ h' h] split: option.splits)

lemma RemoveOrder_cong:
  "\<forall>a. ID (h' a) = ID (h a) \<and> Side (h' a) = Side (h a) \<and> Price (h' a) = Price (h a) \<Longrightarrow>
   RemoveOrder h' oid ob = RemoveOrder h oid ob"
proof -
  assume H: "\<forall>a. ID (h' a) = ID (h a) \<and> Side (h' a) = Side (h a) \<and> Price (h' a) = Price (h a)"
  then have "\<forall>a. ID (h' a) = ID (h a)" by simp
  then have lr: "level_remove h' desc p oid t = level_remove h desc p oid t" for desc p t
    by (rule level_remove_cong)
  show ?thesis using H by (simp add: RemoveOrder_def Let_def lr split: option.splits)
qed

lemma RemoveOrder_None: "Orders ob oid = None \<Longrightarrow> RemoveOrder h oid ob = (None, ob)"
  by (simp add: RemoveOrder_def)

lemma RemoveOrder_fst: "fst (RemoveOrder h oid ob) = Orders ob oid"
  by (simp add: RemoveOrder_def Let_def split: option.splits)

lemma side_mem:
  assumes ok: "book_ok h symbol ob" and a: "a \<in> set (book_addrs ob)"
  shows "(Side (h a) = Buy \<longrightarrow> (Price (h a), a) \<in> set (entry_list (Bids ob))) \<and>
         (Side (h a) = Sell \<longrightarrow> (Price (h a), a) \<in> set (entry_list (Asks ob)))"
proof -
  from a consider p where "(p, a) \<in> set (entry_list (Bids ob))"
    | p where "(p, a) \<in> set (entry_list (Asks ob))"
    unfolding book_addrs_mem by blast
  then show ?thesis
  proof cases
    case 1
    then have "resting_ok h symbol ob Buy (p, a)" using ok by (simp add: book_ok_def)
    then have "Side (h a) = Buy" "Price (h a) = p" by (simp_all add: resting_ok_def)
    then show ?thesis using 1 by simp
  next
    case 2
    then have "resting_ok h symbol ob Sell (p, a)" using ok by (simp add: book_ok_def)
    then have "Side (h a) = Sell" "Price (h a) = p" by (simp_all add: resting_ok_def)
    then show ?thesis using 2 by simp
  qed
qed

lemma resting_index:
  assumes ok: "book_ok h symbol ob" and b: "b \<in> set (book_addrs ob)"
  shows "Orders ob (ID (h b)) = Some b"
proof -
  from b consider p where "(p, b) \<in> set (entry_list (Bids ob))"
    | p where "(p, b) \<in> set (entry_list (Asks ob))"
    unfolding book_addrs_mem by blast
  then show ?thesis
  proof cases
    case 1
    then have "resting_ok h symbol ob Buy (p, b)" using ok by (simp add: book_ok_def)
    then show ?thesis by (simp add: resting_ok_def)
  next
    case 2
    then have "resting_ok h symbol ob Sell (p, b)" using ok by (simp add: book_ok_def)
    then show ?thesis by (simp add: resting_ok_def)
  qed
qed

lemma id_unique:
  assumes ok: "book_ok h symbol ob" and a: "Orders ob oid = Some a"
    and b: "b \<in> set (book_addrs ob)" "ID (h b) = oid"
  shows "b = a"
proof -
  have "Orders ob (ID (h b)) = Some b"
    using ok b(1) by (rule resting_index)
  then show ?thesis using a b(2) by simp
qed

lemma RemoveOrder_ok:
  assumes ok: "book_ok h symbol ob" and a: "Orders ob oid = Some a"
  shows "book_ok h symbol (snd (RemoveOrder h oid ob)) \<and>
         add_mset a (mset (book_addrs (snd (RemoveOrder h oid ob)))) = mset (book_addrs ob) \<and>
         (Side (h a) = Buy \<longrightarrow>
            add_mset (Price (h a), a) (mset (entry_list (Bids (snd (RemoveOrder h oid ob)))))
              = mset (entry_list (Bids ob)) \<and> Asks (snd (RemoveOrder h oid ob)) = Asks ob) \<and>
         (Side (h a) = Sell \<longrightarrow>
            add_mset (Price (h a), a) (mset (entry_list (Asks (snd (RemoveOrder h oid ob)))))
              = mset (entry_list (Asks ob)) \<and> Bids (snd (RemoveOrder h oid ob)) = Bids ob)"
proof -
  have tb: "tree_ok True (Bids ob)" and ta: "tree_ok False (Asks ob)" and d: "distinct (book_addrs ob)"
    using ok by (simp_all add: book_ok_def)
  have mem: "a \<in> set (book_addrs ob)" and ida: "ID (h a) = oid"
    using ok a by (simp_all add: book_ok_def)
  have rB: "\<forall>e \<in> set (entry_list (Bids ob)). resting_ok h symbol ob Buy e"
    and rA: "\<forall>e \<in> set (entry_list (Asks ob)). resting_ok h symbol ob Sell e"
    and nc: "\<forall>b \<in> set (entry_list (Bids ob)). \<forall>a \<in> set (entry_list (Asks ob)). fst b <s fst a"
    using ok by (simp_all add: book_ok_def)
  have uniq: "snd e = a" if "snd e \<in> set (book_addrs ob)" "ID (h (snd e)) = oid" for e :: "int64 \<times> addr"
    using id_unique [OF ok a that] .
  have inB: "snd e \<in> set (book_addrs ob)" if "e \<in> set (entry_list (Bids ob))" for e
  proof -
    obtain p x where e: "e = (p, x)" by (cases e)
    show ?thesis using that unfolding e by (auto simp: book_addrs_mem)
  qed
  have inA: "snd e \<in> set (book_addrs ob)" if "e \<in> set (entry_list (Asks ob))" for e
  proof -
    obtain p x where e: "e = (p, x)" by (cases e)
    show ?thesis using that unfolding e by (auto simp: book_addrs_mem)
  qed
  define ob' where "ob' = snd (RemoveOrder h oid ob)"
  have ord: "Orders ob' = (Orders ob)(oid := None)"
    using a by (simp add: ob'_def RemoveOrder_def Let_def)
  have ent: "(Side (h a) = Buy \<longrightarrow>
            add_mset (Price (h a), a) (mset (entry_list (Bids ob'))) = mset (entry_list (Bids ob)) \<and>
            Asks ob' = Asks ob \<and> tree_ok True (Bids ob')) \<and>
         (Side (h a) = Sell \<longrightarrow>
            add_mset (Price (h a), a) (mset (entry_list (Asks ob'))) = mset (entry_list (Asks ob)) \<and>
            Bids ob' = Bids ob \<and> tree_ok False (Asks ob'))"
  proof (cases "Side (h a)")
    case Buy
    have "add_mset (Price (h a), a) (mset (entry_list (level_remove h True (Price (h a)) oid (Bids ob))))
          = mset (entry_list (Bids ob))"
      using tb side_mem [OF ok mem, THEN conjunct1, rule_format, OF Buy] ida
    proof (rule level_remove_mset)
      show "\<forall>e\<in>set (entry_list (Bids ob)). ID (h (snd e)) = oid \<longrightarrow> snd e = a"
        using uniq inB by blast
    qed
    then show ?thesis using Buy a tb
      by (simp add: ob'_def RemoveOrder_def Let_def level_remove_ok)
  next
    case Sell
    have "add_mset (Price (h a), a) (mset (entry_list (level_remove h False (Price (h a)) oid (Asks ob))))
          = mset (entry_list (Asks ob))"
      using ta side_mem [OF ok mem, THEN conjunct2, rule_format, OF Sell] ida
    proof (rule level_remove_mset)
      show "\<forall>e\<in>set (entry_list (Asks ob)). ID (h (snd e)) = oid \<longrightarrow> snd e = a"
        using uniq inA by blast
    qed
    then show ?thesis using Sell a ta
      by (simp add: ob'_def RemoveOrder_def Let_def level_remove_ok)
  qed
  have trees: "tree_ok True (Bids ob')" "tree_ok False (Asks ob')"
    using ent tb ta by (cases "Side (h a)", simp, simp)+
  have m: "add_mset a (mset (book_addrs ob')) = mset (book_addrs ob)"
  proof (cases "Side (h a)")
    case Buy
    then have e: "add_mset (Price (h a), a) (mset (entry_list (Bids ob'))) = mset (entry_list (Bids ob))"
      and o: "Asks ob' = Asks ob" using ent by simp_all
    have "image_mset snd (add_mset (Price (h a), a) (mset (entry_list (Bids ob'))))
        = image_mset snd (mset (entry_list (Bids ob)))"
      by (simp only: e)
    then show ?thesis by (simp add: book_addrs_def o)
  next
    case Sell
    then have e: "add_mset (Price (h a), a) (mset (entry_list (Asks ob'))) = mset (entry_list (Asks ob))"
      and o: "Bids ob' = Bids ob" using ent by simp_all
    have "image_mset snd (add_mset (Price (h a), a) (mset (entry_list (Asks ob'))))
        = image_mset snd (mset (entry_list (Asks ob)))"
      by (simp only: e)
    then show ?thesis by (simp add: book_addrs_def o)
  qed
  have dm: "distinct (book_addrs ob') \<and> a \<notin> set (book_addrs ob') \<and>
            set (book_addrs ob) = insert a (set (book_addrs ob'))"
    using m d by (rule distinct_remove_mset)
  have subB: "set (entry_list (Bids ob')) \<subseteq> set (entry_list (Bids ob))"
  proof (cases "Side (h a)")
    case Buy
    then have e: "add_mset (Price (h a), a) (mset (entry_list (Bids ob'))) = mset (entry_list (Bids ob))"
      using ent by simp
    have "set_mset (add_mset (Price (h a), a) (mset (entry_list (Bids ob'))))
        = set_mset (mset (entry_list (Bids ob)))"
      by (simp only: e)
    then show ?thesis by auto
  next
    case Sell
    then show ?thesis using ent by simp
  qed
  have subA: "set (entry_list (Asks ob')) \<subseteq> set (entry_list (Asks ob))"
  proof (cases "Side (h a)")
    case Sell
    then have e: "add_mset (Price (h a), a) (mset (entry_list (Asks ob'))) = mset (entry_list (Asks ob))"
      using ent by simp
    have "set_mset (add_mset (Price (h a), a) (mset (entry_list (Asks ob'))))
        = set_mset (mset (entry_list (Asks ob)))"
      by (simp only: e)
    then show ?thesis by auto
  next
    case Buy
    then show ?thesis using ent by simp
  qed
  have keep: "resting_ok h symbol ob' side e"
    if r: "resting_ok h symbol ob side e" and e: "snd e \<in> set (book_addrs ob')" for side e
  proof -
    have "snd e \<noteq> a" using e dm by auto
    moreover have "snd e \<in> set (book_addrs ob)" using e dm by auto
    ultimately have "ID (h (snd e)) \<noteq> oid" using uniq by blast
    then show ?thesis using r by (simp add: resting_ok_def ord)
  qed
  have inB': "snd e \<in> set (book_addrs ob')" if "e \<in> set (entry_list (Bids ob'))" for e
  proof -
    obtain p x where e: "e = (p, x)" by (cases e)
    show ?thesis using that unfolding e by (auto simp: book_addrs_mem)
  qed
  have inA': "snd e \<in> set (book_addrs ob')" if "e \<in> set (entry_list (Asks ob'))" for e
  proof -
    obtain p x where e: "e = (p, x)" by (cases e)
    show ?thesis using that unfolding e by (auto simp: book_addrs_mem)
  qed
  have "book_ok h symbol ob'"
    unfolding book_ok_def
  proof (intro conjI ballI allI impI)
    show "tree_ok True (Bids ob')" "tree_ok False (Asks ob')" by (rule trees)+
    show "distinct (book_addrs ob')" using dm by simp
    show "resting_ok h symbol ob' Buy e" if "e \<in> set (entry_list (Bids ob'))" for e
    proof (rule keep)
      show "resting_ok h symbol ob Buy e" using that subB rB by blast
      show "snd e \<in> set (book_addrs ob')" using that by (rule inB')
    qed
    show "resting_ok h symbol ob' Sell e" if "e \<in> set (entry_list (Asks ob'))" for e
    proof (rule keep)
      show "resting_ok h symbol ob Sell e" using that subA rA by blast
      show "snd e \<in> set (book_addrs ob')" using that by (rule inA')
    qed
    show "x \<in> set (book_addrs ob')" if "Orders ob' k = Some x" for k x
    proof -
      have k: "k \<noteq> oid" "Orders ob k = Some x" using that by (auto simp: ord split: if_splits)
      then have "x \<in> set (book_addrs ob)" "ID (h x) = k" using ok by (simp_all add: book_ok_def)
      then show ?thesis using k ida dm by auto
    qed
    show "ID (h x) = k" if "Orders ob' k = Some x" for k x
    proof -
      have "Orders ob k = Some x" using that by (auto simp: ord split: if_splits)
      then show ?thesis using ok by (simp add: book_ok_def)
    qed
    show "fst x <s fst y" if "x \<in> set (entry_list (Bids ob'))" "y \<in> set (entry_list (Asks ob'))" for x y
      using that subB subA nc by blast
  qed
  then show ?thesis unfolding ob'_def [symmetric] using m ent by blast
qed

section \<open>One trade\<close>

lemma tree_ok_head:
  assumes "tree_ok desc t" and "t \<noteq> []"
  shows "\<exists>p a l t'. t = (p, a # l) # t' \<and> best_of t = Some a \<and>
           entry_list t = (p, a) # (map (Pair p) l @ entry_list t')"
proof -
  obtain p lv t' where t: "t = (p, lv) # t'" using assms(2) by (cases t) auto
  then have "lv \<noteq> []" using assms(1) by (simp add: tree_ok_def)
  then obtain a l where "lv = a # l" by (cases lv) auto
  with t show ?thesis by (simp add: best_of_def)
qed

lemma tree_ok_empty: "tree_ok desc t \<Longrightarrow> (entry_list t = []) = (t = [])"
  using tree_ok_head [of desc t] by (cases "t = []") auto

lemma level_remove_head:
  "entry_list (level_remove h desc p (ID (h a)) ((p, a # l) # t')) = map (Pair p) l @ entry_list t'"
  by (simp add: level_remove_def)

lemma fill_apply:
  "fill h a q x = (if x = a then (h a)\<lparr>RemainingQuantity := RemainingQuantity (h a) - q,
                                         FilledQuantity := FilledQuantity (h a) + q\<rparr> else h x)"
  by (simp add: fill_def)

lemma set_status_apply: "set_status h a st x = (if x = a then (h a)\<lparr>Status := st\<rparr> else h x)"
  by (simp add: set_status_def)

lemma sless_cases:
  fixes x y :: int64
  shows "\<not> x <s y \<Longrightarrow> \<not> y <s x \<Longrightarrow> x = y"
proof (rule ccontr)
  assume a: "\<not> x <s y" "\<not> y <s x" "x \<noteq> y"
  then have "sint x \<noteq> sint y"
    using sint_eq0 [of "x - y"] by (auto simp: sint_word_ariths)
  then show False using a by (auto simp: word_sless_alt)
qed

lemma executeTrade_full:
  assumes "incoming \<noteq> bookOrder"
    and "\<not> RemainingQuantity (mem s incoming) <s RemainingQuantity (mem s bookOrder)"
  shows "executeTrade incoming bookOrder s =
    (NewTrade (getBuyerOrderID (mem s incoming) (mem s bookOrder))
              (getSellerOrderID (mem s incoming) (mem s bookOrder))
              (Price (mem s bookOrder)) (RemainingQuantity (mem s bookOrder)),
     s\<lparr>mem := set_status (fill (fill (mem s) incoming (RemainingQuantity (mem s bookOrder)))
                     bookOrder (RemainingQuantity (mem s bookOrder))) bookOrder Filled,
       book := snd (RemoveOrder (mem s) (ID (mem s bookOrder)) (book s)),
       counters := DecOrdersInBook (counters s)\<rparr>)"
proof -
  have q: "trade_quantity (mem s) incoming bookOrder = RemainingQuantity (mem s bookOrder)"
    using assms(2) sless_cases by (auto simp: trade_quantity_def)
  have c: "RemoveOrder (set_status (fill (fill (mem s) incoming q1) bookOrder q2) bookOrder st) oid ob
           = RemoveOrder (mem s) oid ob" for q1 q2 st oid ob
    by (rule RemoveOrder_cong) (simp add: fill_apply set_status_apply)
  have z: "RemainingQuantity (fill (fill (mem s) incoming q1) bookOrder
             (RemainingQuantity (mem s bookOrder)) bookOrder) = 0" for q1
    using assms(1) by (simp add: fill_apply)
  have i: "ID (set_status (fill (fill (mem s) incoming q1) bookOrder q2) bookOrder st bookOrder)
           = ID (mem s bookOrder)" for q1 q2 st
    using assms(1) by (simp add: fill_apply set_status_apply)
  show ?thesis
    unfolding executeTrade_def Let_def q by (simp only: z c i if_True simp_thms)
qed

lemma executeTrade_partial:
  assumes "incoming \<noteq> bookOrder"
    and "RemainingQuantity (mem s incoming) <s RemainingQuantity (mem s bookOrder)"
  shows "executeTrade incoming bookOrder s =
    (NewTrade (getBuyerOrderID (mem s incoming) (mem s bookOrder))
              (getSellerOrderID (mem s incoming) (mem s bookOrder))
              (Price (mem s bookOrder)) (RemainingQuantity (mem s incoming)),
     s\<lparr>mem := set_status (fill (fill (mem s) incoming (RemainingQuantity (mem s incoming)))
                     bookOrder (RemainingQuantity (mem s incoming))) bookOrder PartialFill\<rparr>)"
proof -
  have q: "trade_quantity (mem s) incoming bookOrder = RemainingQuantity (mem s incoming)"
    using assms(2) by (auto simp: trade_quantity_def word_sless_alt)
  have "RemainingQuantity (mem s bookOrder) \<noteq> RemainingQuantity (mem s incoming)"
    using assms(2) by (auto simp: word_sless_alt)
  then have z: "RemainingQuantity (fill (fill (mem s) incoming q1) bookOrder
             (RemainingQuantity (mem s incoming)) bookOrder) \<noteq> 0" for q1
    using assms(1) by (simp add: fill_apply)
  show ?thesis
    unfolding executeTrade_def Let_def q by (simp only: z if_False simp_thms)
qed

lemma resting_fields:
  assumes ok: "book_ok h symbol ob" and a: "a \<in> set (book_addrs ob)"
  shows "0 <s RemainingQuantity (h a) \<and> 0 <s OriginalQuantity (h a) \<and> Symbol (h a) = symbol \<and>
         Type (h a) = Limit"
proof -
  from a consider p where "(p, a) \<in> set (entry_list (Bids ob))"
    | p where "(p, a) \<in> set (entry_list (Asks ob))"
    unfolding book_addrs_mem by blast
  then show ?thesis
  proof cases
    case 1
    then have "resting_ok h symbol ob Buy (p, a)" using ok by (simp add: book_ok_def)
    then show ?thesis by (simp add: resting_ok_def)
  next
    case 2
    then have "resting_ok h symbol ob Sell (p, a)" using ok by (simp add: book_ok_def)
    then show ?thesis by (simp add: resting_ok_def)
  qed
qed

lemma opposite_head:
  assumes ok: "book_ok (mem s) symbol (book s)"
    and hd: "entry_list (opposite_tree incoming s) = (p, m) # rest"
  shows "m \<in> set (book_addrs (book s)) \<and> Price (mem s m) = p \<and>
         Side (mem s m) = (if Side (mem s incoming) = Buy then Sell else Buy) \<and>
         Orders (book s) (ID (mem s m)) = Some m"
proof (cases "Side (mem s incoming) = Buy")
  case True
  then have e: "(p, m) \<in> set (entry_list (Asks (book s)))"
    using hd by (simp add: opposite_tree_def)
  then have "resting_ok (mem s) symbol (book s) Sell (p, m)" using ok by (simp add: book_ok_def)
  then show ?thesis using True e by (auto simp: resting_ok_def book_addrs_mem)
next
  case False
  then have e: "(p, m) \<in> set (entry_list (Bids (book s)))"
    using hd by (simp add: opposite_tree_def)
  then have "resting_ok (mem s) symbol (book s) Buy (p, m)" using ok by (simp add: book_ok_def)
  then show ?thesis using False e by (auto simp: resting_ok_def book_addrs_mem)
qed

lemma opposite_tree_ok:
  "book_ok (mem s) symbol (book s) \<Longrightarrow>
   tree_ok (Side (mem s incoming) \<noteq> Buy) (opposite_tree incoming s)"
  by (simp add: opposite_tree_def book_ok_def)

lemma step_full:
  assumes ok: "book_ok (mem s) symbol (book s)"
    and fresh: "incoming \<notin> set (book_addrs (book s))"
    and hd: "entry_list (opposite_tree incoming s) = (p, m) # rest"
    and full: "\<not> RemainingQuantity (mem s incoming) <s RemainingQuantity (mem s m)"
  shows "book_ok (mem (snd (executeTrade incoming m s))) symbol (book (snd (executeTrade incoming m s)))
    \<and> add_mset m (mset (book_addrs (book (snd (executeTrade incoming m s))))) = mset (book_addrs (book s))
    \<and> entry_list (opposite_tree incoming (snd (executeTrade incoming m s))) = rest
    \<and> same_tree incoming (snd (executeTrade incoming m s)) = same_tree incoming s"
proof -
  let ?h = "mem s" and ?ob = "book s"
  let ?q = "RemainingQuantity (?h m)"
  let ?h' = "set_status (fill (fill ?h incoming ?q) m ?q) m Filled"
  let ?ob' = "snd (RemoveOrder ?h (ID (?h m)) ?ob)"
  have hm: "m \<in> set (book_addrs ?ob)" "Price (?h m) = p"
      "Side (?h m) = (if Side (?h incoming) = Buy then Sell else Buy)"
      "Orders ?ob (ID (?h m)) = Some m"
    using opposite_head [OF ok hd] by simp_all
  have ne: "incoming \<noteq> m" using hm(1) fresh by auto
  have s': "snd (executeTrade incoming m s)
      = s\<lparr>mem := ?h', book := ?ob', counters := DecOrdersInBook (counters s)\<rparr>"
    using executeTrade_full [OF ne full] by simp
  have rm: "book_ok ?h symbol ?ob'" "add_mset m (mset (book_addrs ?ob')) = mset (book_addrs ?ob)"
    using RemoveOrder_ok [OF ok hm(4)] by simp_all
  have d: "distinct (book_addrs ?ob)" using ok by (simp add: book_ok_def)
  have dm: "m \<notin> set (book_addrs ?ob')" "set (book_addrs ?ob) = insert m (set (book_addrs ?ob'))"
    using distinct_remove_mset [OF rm(2) d] by simp_all
  have ok': "book_ok ?h' symbol ?ob'"
    using rm(1)
  proof (rule book_ok_frame)
    show "\<forall>a\<in>set (book_addrs ?ob'). ID (?h' a) = ID (?h a) \<and> Side (?h' a) = Side (?h a) \<and>
        Price (?h' a) = Price (?h a) \<and> Symbol (?h' a) = Symbol (?h a) \<and> Type (?h' a) = Type (?h a) \<and>
        OriginalQuantity (?h' a) = OriginalQuantity (?h a) \<and> 0 <s RemainingQuantity (?h' a)"
    proof
      fix a assume a: "a \<in> set (book_addrs ?ob')"
      then have "a \<noteq> m" "a \<noteq> incoming" using dm fresh by auto
      then have "?h' a = ?h a" by (simp add: fill_apply set_status_apply)
      moreover have "0 <s RemainingQuantity (?h a)"
        using resting_fields [OF rm(1) a] by simp
      ultimately show "ID (?h' a) = ID (?h a) \<and> Side (?h' a) = Side (?h a) \<and>
        Price (?h' a) = Price (?h a) \<and> Symbol (?h' a) = Symbol (?h a) \<and> Type (?h' a) = Type (?h a) \<and>
        OriginalQuantity (?h' a) = OriginalQuantity (?h a) \<and> 0 <s RemainingQuantity (?h' a)"
        by simp
    qed
  qed
  have sd: "Side (?h' incoming) = Side (?h incoming)"
    by (simp add: fill_apply set_status_apply)
  have tok: "tree_ok (Side (?h incoming) \<noteq> Buy) (opposite_tree incoming s)"
    using ok by (rule opposite_tree_ok)
  have "opposite_tree incoming s \<noteq> []" using hd by auto
  from tree_ok_head [OF tok this] obtain p' a l t' where
    t: "opposite_tree incoming s = (p', a # l) # t'"
      "entry_list (opposite_tree incoming s) = (p', a) # (map (Pair p') l @ entry_list t')"
    by blast
  have pa: "p' = p" "a = m" "rest = map (Pair p) l @ entry_list t'"
    using t(2) hd by simp_all
  have trees: "entry_list (opposite_tree incoming (s\<lparr>mem := ?h', book := ?ob', counters := DecOrdersInBook (counters s)\<rparr>)) = rest
     \<and> same_tree incoming (s\<lparr>mem := ?h', book := ?ob', counters := DecOrdersInBook (counters s)\<rparr>) = same_tree incoming s"
  proof (cases "Side (?h incoming) = Buy")
    case True
    then have "Asks ?ob = (p, m # l) # t'" using t(1) pa by (simp add: opposite_tree_def)
    then show ?thesis using True hm sd pa
      by (simp add: opposite_tree_def same_tree_def RemoveOrder_def Let_def level_remove_head)
  next
    case False
    then have "Bids ?ob = (p, m # l) # t'" using t(1) pa by (simp add: opposite_tree_def)
    then show ?thesis using False hm sd pa
      by (simp add: opposite_tree_def same_tree_def RemoveOrder_def Let_def level_remove_head)
  qed
  show ?thesis unfolding s' using ok' rm(2) trees by simp
qed

lemma step_partial:
  assumes ok: "book_ok (mem s) symbol (book s)"
    and fresh: "incoming \<notin> set (book_addrs (book s))"
    and hd: "entry_list (opposite_tree incoming s) = (p, m) # rest"
    and pos: "0 <s RemainingQuantity (mem s incoming)"
    and part: "RemainingQuantity (mem s incoming) <s RemainingQuantity (mem s m)"
  shows "book_ok (mem (snd (executeTrade incoming m s))) symbol (book (snd (executeTrade incoming m s)))
    \<and> book (snd (executeTrade incoming m s)) = book s
    \<and> RemainingQuantity (mem (snd (executeTrade incoming m s)) incoming) = 0"
proof -
  let ?h = "mem s" and ?ob = "book s"
  let ?q = "RemainingQuantity (?h incoming)"
  let ?h' = "set_status (fill (fill ?h incoming ?q) m ?q) m PartialFill"
  have hm: "m \<in> set (book_addrs ?ob)"
    using opposite_head [OF ok hd] by simp
  have ne: "incoming \<noteq> m" using hm fresh by auto
  have s': "snd (executeTrade incoming m s) = s\<lparr>mem := ?h'\<rparr>"
    using executeTrade_partial [OF ne part] by simp
  have ok': "book_ok ?h' symbol ?ob"
    using ok
  proof (rule book_ok_frame)
    show "\<forall>a\<in>set (book_addrs ?ob). ID (?h' a) = ID (?h a) \<and> Side (?h' a) = Side (?h a) \<and>
        Price (?h' a) = Price (?h a) \<and> Symbol (?h' a) = Symbol (?h a) \<and> Type (?h' a) = Type (?h a) \<and>
        OriginalQuantity (?h' a) = OriginalQuantity (?h a) \<and> 0 <s RemainingQuantity (?h' a)"
    proof
      fix a assume a: "a \<in> set (book_addrs ?ob)"
      then have ai: "a \<noteq> incoming" using fresh by auto
      have "0 <s RemainingQuantity (?h' a)"
      proof (cases "a = m")
        case True
        have "sint (RemainingQuantity (?h m) - ?q) = sint (RemainingQuantity (?h m)) - sint ?q"
          using pos part by (intro sint_sub64) (auto simp: word_sless_alt)
        then show ?thesis using True ne part
          by (simp add: fill_apply set_status_apply word_sless_alt)
      next
        case False
        then have "?h' a = ?h a" using ai by (simp add: fill_apply set_status_apply)
        then show ?thesis using resting_fields [OF ok a] by simp
      qed
      then show "ID (?h' a) = ID (?h a) \<and> Side (?h' a) = Side (?h a) \<and>
        Price (?h' a) = Price (?h a) \<and> Symbol (?h' a) = Symbol (?h a) \<and> Type (?h' a) = Type (?h a) \<and>
        OriginalQuantity (?h' a) = OriginalQuantity (?h a) \<and> 0 <s RemainingQuantity (?h' a)"
        using ai by (simp add: fill_apply set_status_apply)
    qed
  qed
  show ?thesis unfolding s' using ok' ne by (simp add: fill_apply set_status_apply)
qed

lemma trade_quantity_min:
  "sint (trade_quantity h i m) = min (sint (RemainingQuantity (h i))) (sint (RemainingQuantity (h m)))"
  by (simp add: trade_quantity_def word_sless_alt min_def)

lemma fill_sint:
  assumes ok: "quantities_ok (h a)" and q: "0 \<le> sint q" "sint q \<le> sint (RemainingQuantity (h a))"
  shows "sint (RemainingQuantity (fill h a q a)) = sint (RemainingQuantity (h a)) - sint q \<and>
         sint (FilledQuantity (fill h a q a)) = sint (FilledQuantity (h a)) + sint q \<and>
         quantities_ok (fill h a q a)"
proof -
  have r: "sint (RemainingQuantity (h a) - q) = sint (RemainingQuantity (h a)) - sint q"
    using q by (rule sint_sub64)
  have f: "sint (FilledQuantity (h a) + q) = sint (FilledQuantity (h a)) + sint q"
    using ok q sint64_range [of "OriginalQuantity (h a)"]
    by (intro sint_add64) (auto simp: quantities_ok_def word_sle_eq)
  show ?thesis using r f ok q
    by (simp add: fill_apply quantities_ok_def word_sle_eq)
qed

lemma executeTrade_fills:
  assumes ne: "incoming \<noteq> bookOrder"
    and sides: "Side (mem s bookOrder) \<noteq> Side (mem s incoming)"
    and qi: "quantities_ok (mem s incoming)" and qm: "quantities_ok (mem s bookOrder)"
  shows "TradePrice (fst (executeTrade incoming bookOrder s)) = Price (mem s bookOrder) \<and>
     sint (TradeQuantity (fst (executeTrade incoming bookOrder s)))
       = min (sint (RemainingQuantity (mem s incoming))) (sint (RemainingQuantity (mem s bookOrder))) \<and>
     (\<forall>x \<in> {incoming, bookOrder}.
        (Side (mem s x) = Buy \<longrightarrow> BuyerOrderID (fst (executeTrade incoming bookOrder s)) = ID (mem s x)) \<and>
        (Side (mem s x) = Sell \<longrightarrow> SellerOrderID (fst (executeTrade incoming bookOrder s)) = ID (mem s x)) \<and>
        sint (FilledQuantity (mem (snd (executeTrade incoming bookOrder s)) x))
          = sint (FilledQuantity (mem s x)) + sint (TradeQuantity (fst (executeTrade incoming bookOrder s))) \<and>
        sint (RemainingQuantity (mem (snd (executeTrade incoming bookOrder s)) x))
          = sint (RemainingQuantity (mem s x)) - sint (TradeQuantity (fst (executeTrade incoming bookOrder s))))"
proof -
  let ?h = "mem s"
  let ?q = "trade_quantity ?h incoming bookOrder"
  let ?h2 = "fill (fill ?h incoming ?q) bookOrder ?q"
  have qmin: "sint ?q = min (sint (RemainingQuantity (?h incoming))) (sint (RemainingQuantity (?h bookOrder)))"
    by (rule trade_quantity_min)
  have q0: "0 \<le> sint ?q" using qmin qi qm by (simp add: quantities_ok_def word_sle_eq)
  have qle: "sint ?q \<le> sint (RemainingQuantity (?h incoming))" "sint ?q \<le> sint (RemainingQuantity (?h bookOrder))"
    using qmin by simp_all
  have tr: "fst (executeTrade incoming bookOrder s) =
      NewTrade (getBuyerOrderID (?h incoming) (?h bookOrder)) (getSellerOrderID (?h incoming) (?h bookOrder))
        (Price (?h bookOrder)) ?q"
    by (simp add: executeTrade_def Let_def)
  have mem': "RemainingQuantity (mem (snd (executeTrade incoming bookOrder s)) x) = RemainingQuantity (?h2 x) \<and>
      FilledQuantity (mem (snd (executeTrade incoming bookOrder s)) x) = FilledQuantity (?h2 x)" for x
    by (simp add: executeTrade_def Let_def set_status_apply)
  have fi: "sint (RemainingQuantity (fill ?h incoming ?q incoming)) = sint (RemainingQuantity (?h incoming)) - sint ?q"
    "sint (FilledQuantity (fill ?h incoming ?q incoming)) = sint (FilledQuantity (?h incoming)) + sint ?q"
    using fill_sint [of ?h incoming ?q, OF qi q0 qle(1)] by simp_all
  have fm: "sint (RemainingQuantity (fill ?h bookOrder ?q bookOrder)) = sint (RemainingQuantity (?h bookOrder)) - sint ?q"
    "sint (FilledQuantity (fill ?h bookOrder ?q bookOrder)) = sint (FilledQuantity (?h bookOrder)) + sint ?q"
    using fill_sint [of ?h bookOrder ?q, OF qm q0 qle(2)] by simp_all
  have h2i: "?h2 incoming = fill ?h incoming ?q incoming" using ne by (simp add: fill_apply)
  have h2m: "RemainingQuantity (?h2 bookOrder) = RemainingQuantity (fill ?h bookOrder ?q bookOrder)"
    "FilledQuantity (?h2 bookOrder) = FilledQuantity (fill ?h bookOrder ?q bookOrder)"
    using ne by (simp_all add: fill_apply)
  have ids: "Side (?h x) = Buy \<longrightarrow> getBuyerOrderID (?h incoming) (?h bookOrder) = ID (?h x)"
    "Side (?h x) = Sell \<longrightarrow> getSellerOrderID (?h incoming) (?h bookOrder) = ID (?h x)"
    if "x \<in> {incoming, bookOrder}" for x
    using that sides by (auto simp: getBuyerOrderID_def getSellerOrderID_def)
  show ?thesis
    using qmin fi fm h2i h2m ids
    by (simp add: tr mem' NewTrade_def)
qed


lemma total_quantity_sum:
  "total_quantity h acc l = acc + sum_list (map (\<lambda>a. RemainingQuantity (h a)) l)"
  by (induction l arbitrary: acc) (simp_all add: add.assoc)

lemma depth_side_take:
  "depth_side h depthLimit cnt t =
     map (level_total h) (if 0 < depthLimit then take (nat (depthLimit - cnt)) t else t)"
proof (induction t arbitrary: cnt)
  case Nil
  then show ?case by simp
next
  case (Cons x t)
  obtain p l where x: "x = (p, l)" by (cases x)
  show ?case
  proof (cases "0 < depthLimit \<and> depthLimit \<le> cnt")
    case True
    then show ?thesis by (simp add: x)
  next
    case False
    then have "0 < depthLimit \<Longrightarrow> nat (depthLimit - cnt) = Suc (nat (depthLimit - (cnt + 1)))"
      by simp
    then show ?thesis using False Cons.IH [of "cnt + 1"]
      by (auto simp: x level_total_def total_quantity_sum)
  qed
qed

lemma sint_sum_list:
  fixes ws :: "int64 list"
  assumes "\<forall>w \<in> set ws. 0 \<le>s w" and "sum_list (map sint ws) < 9223372036854775808"
  shows "sint (sum_list ws) = sum_list (map sint ws)"
  using assms
proof (induction ws)
  case Nil
  then show ?case by simp
next
  case (Cons w ws)
  have nn: "0 \<le> sint w" using Cons.prems(1) by (simp add: word_sle_eq)
  have "\<And>x. x \<in> set (map sint ws) \<Longrightarrow> 0 \<le> x"
    using Cons.prems(1) by (auto simp: word_sle_eq)
  then have nn2: "0 \<le> sum_list (map sint ws)" by (rule sum_list_nonneg)
  have "sum_list (map sint ws) < 9223372036854775808" using nn Cons.prems(2) by simp
  then have ih: "sint (sum_list ws) = sum_list (map sint ws)" using Cons by simp
  have "sint (w + sum_list ws) = sint w + sint (sum_list ws)"
    using nn nn2 Cons.prems(2) ih by (intro sint_add64) auto
  then show ?case using ih by simp
qed

lemma comes_before_True: "comes_before True = (\<lambda>p q. q <s p)"
  by (simp add: fun_eq_iff comes_before_def)

lemma comes_before_False: "comes_before False = (\<lambda>p q. p <s q)"
  by (simp add: fun_eq_iff comes_before_def)

lemma tree_get_put: "tree_get (tree_put desc k v t) k = Some v"
  by (induction t) auto

lemma tree_put_put: "tree_put desc k v (tree_put desc k v' t) = tree_put desc k v t"
  by (induction t) auto

lemma tree_put_same:
  "sorted_wrt (comes_before desc) (map fst t) \<Longrightarrow> tree_get t k = Some v \<Longrightarrow> tree_put desc k v t = t"
proof (induction t)
  case Nil
  then show ?case by simp
next
  case (Cons x t)
  obtain k' v' where x: "x = (k', v')" by (cases x)
  show ?case
  proof (cases "k = k'")
    case True
    then show ?thesis using Cons.prems x by simp
  next
    case False
    then have g: "tree_get t k = Some v" using Cons.prems x by simp
    then have "(k, v) \<in> set t" by (rule tree_get_Some_mem)
    then have "comes_before desc k' k" using Cons.prems(1) x by force
    then have "\<not> comes_before desc k k'" using comes_before_trans comes_before_irrefl by blast
    then show ?thesis using False x Cons g by simp
  qed
qed

lemma tree_remove_put: "tree_get t k = None \<Longrightarrow> tree_remove k (tree_put desc k v t) = t"
  by (induction t) (auto split: if_splits)

lemma remove_by_id_last:
  "\<forall>b \<in> set l. ID (h b) \<noteq> ID (h a) \<Longrightarrow> remove_by_id h (ID (h a)) (l @ [a]) = l"
  by (induction l) auto

lemma level_remove_append:
  assumes ok: "tree_ok desc t"
    and other: "\<forall>e \<in> set (entry_list t). ID (h (snd e)) \<noteq> ID (h a)"
  shows "level_remove h desc p (ID (h a)) (level_append desc p a t) = t"
proof (cases "tree_get t p")
  case None
  then show ?thesis
    by (simp add: level_append_def level_remove_def tree_get_put tree_remove_put)
next
  case (Some l)
  then have mem: "(p, l) \<in> set t" by (rule tree_get_Some_mem)
  then have ne: "l \<noteq> []" using ok by (auto simp: tree_ok_def)
  have "\<forall>b \<in> set l. ID (h b) \<noteq> ID (h a)"
  proof
    fix b assume "b \<in> set l"
    then have "(p, b) \<in> set (entry_list t)" using mem by (auto simp: entry_list_mem)
    then show "ID (h b) \<noteq> ID (h a)" using other by force
  qed
  then have r: "remove_by_id h (ID (h a)) (l @ [a]) = l" by (rule remove_by_id_last)
  have srt: "sorted_wrt (comes_before desc) (map fst t)" using ok by (simp add: tree_ok_def)
  show ?thesis using Some r ne tree_put_same [OF srt Some]
    by (simp add: level_append_def level_remove_def tree_get_put tree_put_put)
qed

text \<open>
  Claim C9. For a book with well-formed trees whose resting orders are all indexed, and
  an order whose id the index does not hold: adding the order and then removing its id
  returns the order and gives back the same book (levels with their order sequences and
  the index; a level created by the add is deleted again).
\<close>

theorem AddOrder_RemoveOrder:
  assumes absent: "Orders ob (ID (h a)) = None"
    and trees: "tree_ok True (Bids ob)" "tree_ok False (Asks ob)"
    and indexed: "\<forall>b \<in> set (book_addrs ob). Orders ob (ID (h b)) \<noteq> None"
  shows "RemoveOrder h (ID (h a)) (AddOrder h a ob) = (Some a, ob)"
proof -
  have other: "ID (h (snd e)) \<noteq> ID (h a)"
    if "e \<in> set (entry_list (Bids ob)) \<or> e \<in> set (entry_list (Asks ob))" for e
  proof -
    obtain p b where e: "e = (p, b)" by (cases e)
    then have "b \<in> set (book_addrs ob)" using that by (auto simp: book_addrs_mem)
    then have "Orders ob (ID (h b)) \<noteq> None" using indexed by blast
    then show ?thesis using absent e by auto
  qed
  have idx: "(Orders ob)(ID (h a) := None) = Orders ob"
    using absent by (simp add: fun_eq_iff)
  show ?thesis
  proof (cases "Side (h a) = Buy")
    case True
    have "level_remove h True (Price (h a)) (ID (h a)) (level_append True (Price (h a)) a (Bids ob)) = Bids ob"
      using trees(1) other by (intro level_remove_append) auto
    then show ?thesis using True absent idx
      by (simp add: AddOrder_def RemoveOrder_def Let_def)
  next
    case False
    have "level_remove h False (Price (h a)) (ID (h a)) (level_append False (Price (h a)) a (Asks ob)) = Asks ob"
      using trees(2) other by (intro level_remove_append) auto
    then show ?thesis using False absent idx
      by (simp add: AddOrder_def RemoveOrder_def Let_def)
  qed
qed

theorem AddOrder_RemoveOrder_witness:
  "let h = (\<lambda>a. if a = 3 then NewOrder ''s1'' ''X'' Sell Limit 100 5 0
                 else NewOrder ''s2'' ''X'' Sell Limit 100 5 0);
       ob = \<lparr>BookSymbol = ''X'', Bids = [], Asks = [(100, [3])], Orders = [''s1'' \<mapsto> 3]\<rparr>
   in Asks (AddOrder h 7 ob) = [(100, [3, 7])] \<and>
      RemoveOrder h ''s2'' (AddOrder h 7 ob) = (Some 7, ob)"
proof -
  define h where "h = (\<lambda>a::nat. if a = 3 then NewOrder ''s1'' ''X'' Sell Limit 100 5 0
                 else NewOrder ''s2'' ''X'' Sell Limit 100 5 0)"
  define ob where "ob = \<lparr>BookSymbol = ''X'', Bids = [], Asks = [(100, [3::nat])], Orders = [''s1'' \<mapsto> 3]\<rparr>"
  have id7: "ID (h 7) = ''s2''" by (simp add: h_def NewOrder_def)
  have hyp: "Orders ob (ID (h 7)) = None" "tree_ok True (Bids ob)" "tree_ok False (Asks ob)"
      "\<forall>b \<in> set (book_addrs ob). Orders ob (ID (h b)) \<noteq> None"
    by (simp_all add: h_def ob_def NewOrder_def tree_ok_def book_addrs_def)
  have "Asks (AddOrder h 7 ob) = [(100, [3, 7])]"
    by (simp add: AddOrder_def h_def ob_def NewOrder_def level_append_def Let_def)
  then have "Asks (AddOrder h 7 ob) = [(100, [3, 7])] \<and>
      RemoveOrder h ''s2'' (AddOrder h 7 ob) = (Some 7, ob)"
    using AddOrder_RemoveOrder [OF hyp] by (simp add: id7)
  then show ?thesis by (simp add: Let_def h_def ob_def)
qed

lemma book_of_update [simp]:
  "book_of (e\<lparr>metrics := m\<rparr>) = book_of e"
  "book_of (e\<lparr>AllOrders := r\<rparr>) = book_of e"
  "book_of (e\<lparr>heap := h\<rparr>) = book_of e"
  "book_of (e\<lparr>next_addr := n\<rparr>) = book_of e"
  by (simp_all add: book_of_def fun_eq_iff)

lemma getOrderBook_eq:
  "getOrderBook symbol e =
     (book_of e symbol, e\<lparr>OrderBooks := (OrderBooks e)(symbol \<mapsto> book_of e symbol)\<rparr>)"
  by (auto simp: getOrderBook_def book_of_def fun_upd_idem split: option.splits)

lemma type_cases: "(if Type ord = Limit then processLimitOrder a s else processMarketOrder a s)
   = match_loop (Type ord = Limit) a [] s"
  by (cases "Type ord") (simp_all add: processLimitOrder_def processMarketOrder_def)

lemma ProcessOrder_invalid:
  "Validate (heap e a) = Some err \<Longrightarrow>
   ProcessOrder a e = Some (Inl err, e\<lparr>metrics := IncOrdersReceived (metrics e)\<rparr>)"
  by (simp add: ProcessOrder_def Let_def)

lemma ProcessOrder_illiquid:
  assumes "Validate (heap e a) = None" and "Type (heap e a) = Market"
    and "CalculateLiquidity (heap e) (Side (heap e a)) (OriginalQuantity (heap e a))
           (book_of e (Symbol (heap e a))) <s OriginalQuantity (heap e a)"
  shows "ProcessOrder a e =
     Some (Inl (InsufficientLiquidity
                  (CalculateLiquidity (heap e) (Side (heap e a)) (OriginalQuantity (heap e a))
                     (book_of e (Symbol (heap e a))))
                  (OriginalQuantity (heap e a))),
           e\<lparr>OrderBooks := (OrderBooks e)(Symbol (heap e a) \<mapsto> book_of e (Symbol (heap e a))),
             AllOrders := (AllOrders e)(ID (heap e a) := None),
             metrics := IncOrdersReceived (metrics e)\<rparr>)"
  using assms by (simp add: ProcessOrder_def Let_def getOrderBook_eq)

lemma ProcessOrder_matched:
  assumes "Validate (heap e a) = None"
    and "\<not> (Type (heap e a) = Market \<and>
          CalculateLiquidity (heap e) (Side (heap e a)) (OriginalQuantity (heap e a))
           (book_of e (Symbol (heap e a))) <s OriginalQuantity (heap e a))"
  shows "ProcessOrder a e =
     (case match_loop (Type (heap e a) = Limit) a []
             \<lparr>mem = heap e, book = book_of e (Symbol (heap e a)),
              counters = IncOrdersReceived (metrics e)\<rparr> of
        None \<Rightarrow> None
      | Some (trades, s1) \<Rightarrow>
          Some (Inr (a, trades),
                e\<lparr>heap := mem (finish_order a trades s1),
                  OrderBooks := (OrderBooks e)(Symbol (heap e a) \<mapsto> book (finish_order a trades s1)),
                  AllOrders := (AllOrders e)(ID (heap e a) \<mapsto> a),
                  metrics := counters (finish_order a trades s1)\<rparr>))"
  using assms
  by (auto simp: ProcessOrder_def Let_def getOrderBook_eq type_cases split: option.splits)



lemma match_loop_unfold:
  "match_loop isLimit incoming trades s =
     (if 0 <s RemainingQuantity (mem s incoming) \<and> opposite_tree incoming s \<noteq> [] then
        (case best_of (opposite_tree incoming s) of
           None \<Rightarrow> None
         | Some best \<Rightarrow>
             if isLimit \<and> not_crossing incoming s best then Some (trades, s)
             else match_loop isLimit incoming (trades @ [fst (executeTrade incoming best s)])
                    (snd (executeTrade incoming best s)))
      else Some (trades, s))"
proof (cases "Side (mem s incoming) = Buy")
  case True
  then show ?thesis
    by (subst match_loop.simps)
       (simp add: Let_def opposite_tree_def not_crossing_def GetBestAsk_def split: option.splits)
next
  case False
  then show ?thesis
    by (subst match_loop.simps)
       (simp add: Let_def opposite_tree_def not_crossing_def GetBestBid_def split: option.splits)
qed

lemma match_loop_rule:
  assumes inv: "I trades s"
    and wf: "\<And>tr s. I tr s \<Longrightarrow>
        book_ok (mem s) symbol (book s) \<and> incoming \<notin> set (book_addrs (book s))"
    and step: "\<And>tr s p m rest. I tr s \<Longrightarrow> 0 <s RemainingQuantity (mem s incoming) \<Longrightarrow>
        entry_list (opposite_tree incoming s) = (p, m) # rest \<Longrightarrow>
        \<not> (isLimit \<and> not_crossing incoming s m) \<Longrightarrow>
        I (tr @ [fst (executeTrade incoming m s)]) (snd (executeTrade incoming m s))"
  shows "\<exists>tr s'. match_loop isLimit incoming trades s = Some (tr, s') \<and> I tr s' \<and>
           loop_done isLimit incoming s'"
proof -
  define n where "n = length (book_addrs (book s)) +
                      (if 0 <s RemainingQuantity (mem s incoming) then 1 else 0 :: nat)"
  show ?thesis using inv n_def
  proof (induction n arbitrary: trades s rule: less_induct)
    case (less n)
    note I = less.prems(1)
    have ok: "book_ok (mem s) symbol (book s)" and fresh: "incoming \<notin> set (book_addrs (book s))"
      using wf [OF I] by simp_all
    have tok: "tree_ok (Side (mem s incoming) \<noteq> Buy) (opposite_tree incoming s)"
      using ok by (rule opposite_tree_ok)
    show ?case
    proof (cases "0 <s RemainingQuantity (mem s incoming) \<and> opposite_tree incoming s \<noteq> []")
      case False
      have "match_loop isLimit incoming trades s = Some (trades, s)"
        by (subst match_loop_unfold) (use False in auto)
      moreover have "loop_done isLimit incoming s"
        using False tree_ok_empty [OF tok] by (auto simp: loop_done_def)
      ultimately show ?thesis using I by blast
    next
      case True
      then have pos: "0 <s RemainingQuantity (mem s incoming)" and ne: "opposite_tree incoming s \<noteq> []"
        by simp_all
      from tree_ok_head [OF tok ne] obtain p m l t' where
        hd: "best_of (opposite_tree incoming s) = Some m"
          "entry_list (opposite_tree incoming s) = (p, m) # (map (Pair p) l @ entry_list t')"
        by blast
      show ?thesis
      proof (cases "isLimit \<and> not_crossing incoming s m")
        case stop: True
        have "match_loop isLimit incoming trades s = Some (trades, s)"
          by (subst match_loop_unfold) (use stop True hd(1) in simp)
        moreover have "loop_done isLimit incoming s"
          using stop hd(2) by (simp add: loop_done_def)
        ultimately show ?thesis using I by blast
      next
        case go: False
        let ?s1 = "snd (executeTrade incoming m s)"
        let ?tr1 = "trades @ [fst (executeTrade incoming m s)]"
        have I1: "I ?tr1 ?s1" using I pos hd(2) go by (rule step)
        have unf: "match_loop isLimit incoming trades s = match_loop isLimit incoming ?tr1 ?s1"
          by (subst match_loop_unfold) (use True hd(1) go in auto)
        have less: "length (book_addrs (book ?s1)) +
                      (if 0 <s RemainingQuantity (mem ?s1 incoming) then 1 else 0 :: nat) < n"
        proof (cases "RemainingQuantity (mem s incoming) <s RemainingQuantity (mem s m)")
          case part: True
          have "book ?s1 = book s" "RemainingQuantity (mem ?s1 incoming) = 0"
            using step_partial [OF ok fresh hd(2) pos part] by simp_all
          then show ?thesis using pos less.prems(2) by simp
        next
          case full: False
          have "add_mset m (mset (book_addrs (book ?s1))) = mset (book_addrs (book s))"
            using step_full [OF ok fresh hd(2) full] by simp
          then have "size (add_mset m (mset (book_addrs (book ?s1)))) = size (mset (book_addrs (book s)))"
            by (simp only:)
          then have "Suc (length (book_addrs (book ?s1))) = length (book_addrs (book s))"
            by simp
          then show ?thesis using pos less.prems(2) by simp
        qed
        from less.IH [OF less I1 refl]
        show ?thesis unfolding unf .
      qed
    qed
  qed
qed

lemma static_eq_refl [simp]: "static_eq x x"
  by (simp add: static_eq_def)

lemma static_eq_trans: "static_eq x y \<Longrightarrow> static_eq y z \<Longrightarrow> static_eq x z"
  by (simp add: static_eq_def)

lemma quantities_step_refl [simp]: "quantities_step x x"
  by (simp add: quantities_step_def word_sle_eq)

lemma quantities_step_trans: "quantities_step x y \<Longrightarrow> quantities_step y z \<Longrightarrow> quantities_step x z"
  by (auto simp: quantities_step_def word_sle_eq)

lemma executeTrade_mem:
  "\<exists>st. mem (snd (executeTrade i m s)) =
     set_status (fill (fill (mem s) i (trade_quantity (mem s) i m)) m (trade_quantity (mem s) i m)) m st"
  by (simp add: executeTrade_def Let_def) blast

lemma executeTrade_frame:
  "x \<noteq> i \<Longrightarrow> x \<noteq> m \<Longrightarrow> mem (snd (executeTrade i m s)) x = mem s x"
  using executeTrade_mem [of i m s] by (auto simp: fill_apply set_status_apply)

lemma executeTrade_static: "static_eq (mem (snd (executeTrade i m s)) x) (mem s x)"
  using executeTrade_mem [of i m s] by (auto simp: fill_apply set_status_apply static_eq_def)

lemma fill_step:
  assumes q: "0 \<le> sint q" "sint q \<le> sint (RemainingQuantity (h a))"
  shows "quantities_step (h a) (fill h a q a)"
proof (cases "quantities_ok (h a)")
  case True
  from fill_sint [of h a q, OF True q] show ?thesis
    using q by (simp add: quantities_step_def word_sle_eq)
next
  case False
  then show ?thesis by (simp add: quantities_step_def)
qed

lemma executeTrade_quantities:
  assumes ne: "i \<noteq> m"
    and pos: "0 <s RemainingQuantity (mem s i)" "0 <s RemainingQuantity (mem s m)"
  shows "quantities_step (mem s x) (mem (snd (executeTrade i m s)) x)"
proof -
  let ?h = "mem s" and ?q = "trade_quantity (mem s) i m"
  obtain st where m': "mem (snd (executeTrade i m s)) = set_status (fill (fill ?h i ?q) m ?q) m st"
    using executeTrade_mem by blast
  have qmin: "sint ?q = min (sint (RemainingQuantity (?h i))) (sint (RemainingQuantity (?h m)))"
    by (rule trade_quantity_min)
  have q0: "0 \<le> sint ?q" using qmin pos by (simp add: word_sless_alt)
  have qi: "sint ?q \<le> sint (RemainingQuantity (?h i))" and qm: "sint ?q \<le> sint (RemainingQuantity (?h m))"
    using qmin by simp_all
  have si: "quantities_step (?h i) (fill ?h i ?q i)" using fill_step [of ?q ?h i, OF q0 qi] .
  have sm: "quantities_step (?h m) (fill ?h m ?q m)" using fill_step [of ?q ?h m, OF q0 qm] .
  have st_irrel: "quantities_step y (z\<lparr>Status := st'\<rparr>) = quantities_step y z" for y z st'
    by (simp add: quantities_step_def quantities_ok_def)
  consider "x = i" | "x = m" | "x \<noteq> i" "x \<noteq> m" by blast
  then show ?thesis
  proof cases
    case 1
    then show ?thesis using si ne by (simp add: m' fill_apply set_status_apply)
  next
    case 2
    have "fill (fill ?h i ?q) m ?q m = fill ?h m ?q m" using ne by (simp add: fill_apply)
    then show ?thesis using 2 sm by (simp add: m' set_status_apply st_irrel)
  next
    case 3
    then show ?thesis by (simp add: m' fill_apply set_status_apply)
  qed
qed

lemma executeTrade_counters:
  "OrdersReceived (counters (snd (executeTrade i m s))) = OrdersReceived (counters s) \<and>
   OrdersMatched (counters (snd (executeTrade i m s))) = OrdersMatched (counters s) \<and>
   OrdersCancelled (counters (snd (executeTrade i m s))) = OrdersCancelled (counters s) \<and>
   TradesExecuted (counters (snd (executeTrade i m s))) = TradesExecuted (counters s)"
  by (simp add: executeTrade_def Let_def DecOrdersInBook_def)

lemma match_inv_init:
  "book_ok (mem s) symbol (book s) \<Longrightarrow> a \<notin> set (book_addrs (book s)) \<Longrightarrow> match_inv symbol a s s"
  unfolding match_inv_def by (auto intro: exI [of _ 0])

lemma executeTrade_in_book:
  "i \<noteq> m \<Longrightarrow>
   OrdersInBook (counters (snd (executeTrade i m s)))
     = OrdersInBook (counters s) -
       (if RemainingQuantity (mem s i) <s RemainingQuantity (mem s m) then 0 else 1)"
  by (cases "RemainingQuantity (mem s i) <s RemainingQuantity (mem s m)")
     (simp_all add: executeTrade_full executeTrade_partial DecOrdersInBook_def)

lemma RemoveOrder_symbol: "BookSymbol (snd (RemoveOrder h oid ob)) = BookSymbol ob"
  by (simp add: RemoveOrder_def Let_def split: option.splits)

lemma executeTrade_symbol:
  "i \<noteq> m \<Longrightarrow> BookSymbol (book (snd (executeTrade i m s))) = BookSymbol (book s)"
  by (cases "RemainingQuantity (mem s i) <s RemainingQuantity (mem s m)")
     (simp_all add: executeTrade_full executeTrade_partial RemoveOrder_symbol)

lemma match_inv_step:
  assumes inv: "match_inv symbol a s0 s"
    and pos: "0 <s RemainingQuantity (mem s a)"
    and hd: "entry_list (opposite_tree a s) = (p, m) # rest"
  shows "match_inv symbol a s0 (snd (executeTrade a m s))"
proof -
  let ?s' = "snd (executeTrade a m s)"
  have ok: "book_ok (mem s) symbol (book s)" and fresh: "a \<notin> set (book_addrs (book s))"
    and sub: "set (book_addrs (book s)) \<subseteq> set (book_addrs (book s0))"
    and frame: "\<forall>x. x \<noteq> a \<and> x \<notin> set (book_addrs (book s0)) \<longrightarrow> mem s x = mem s0 x"
    and stat: "\<forall>x. static_eq (mem s x) (mem s0 x) \<and> quantities_step (mem s0 x) (mem s x)"
    and cnt: "OrdersInBook (counters s) - int (length (book_addrs (book s)))
        = OrdersInBook (counters s0) - int (length (book_addrs (book s0)))"
    and others: "OrdersReceived (counters s) = OrdersReceived (counters s0)"
      "OrdersMatched (counters s) = OrdersMatched (counters s0)"
      "OrdersCancelled (counters s) = OrdersCancelled (counters s0)"
      "TradesExecuted (counters s) = TradesExecuted (counters s0)"
    and bsym: "BookSymbol (book s) = BookSymbol (book s0)"
    and same: "same_tree a s = same_tree a s0"
    using inv by (simp_all add: match_inv_def)
  obtain k where k: "entry_list (opposite_tree a s) = drop k (entry_list (opposite_tree a s0))"
    using inv by (auto simp: match_inv_def)
  have mem_m: "m \<in> set (book_addrs (book s))" using opposite_head [OF ok hd] by simp
  then have ne: "a \<noteq> m" using fresh by auto
  have posm: "0 <s RemainingQuantity (mem s m)" using resting_fields [OF ok mem_m] by simp
  have side: "Side (mem ?s' a) = Side (mem s a)"
    using executeTrade_static [of a m s a] by (simp add: static_eq_def)
  have wf: "book_ok (mem ?s') symbol (book ?s') \<and>
      set (book_addrs (book ?s')) \<subseteq> set (book_addrs (book s)) \<and>
      int (length (book_addrs (book ?s'))) = int (length (book_addrs (book s))) -
         (if RemainingQuantity (mem s a) <s RemainingQuantity (mem s m) then 0 else 1) \<and>
      same_tree a ?s' = same_tree a s \<and>
      entry_list (opposite_tree a ?s') =
         (if RemainingQuantity (mem s a) <s RemainingQuantity (mem s m)
          then entry_list (opposite_tree a s) else rest)"
  proof (cases "RemainingQuantity (mem s a) <s RemainingQuantity (mem s m)")
    case True
    have "book_ok (mem ?s') symbol (book ?s')" "book ?s' = book s"
      using step_partial [OF ok fresh hd pos True] by blast+
    then show ?thesis using True side by (simp add: same_tree_def opposite_tree_def)
  next
    case False
    have f: "book_ok (mem ?s') symbol (book ?s')"
      "add_mset m (mset (book_addrs (book ?s'))) = mset (book_addrs (book s))"
      "entry_list (opposite_tree a ?s') = rest" "same_tree a ?s' = same_tree a s"
      using step_full [OF ok fresh hd False] by blast+
    have "set_mset (add_mset m (mset (book_addrs (book ?s')))) = set_mset (mset (book_addrs (book s)))"
      by (simp only: f(2))
    then have s1: "set (book_addrs (book ?s')) \<subseteq> set (book_addrs (book s))" by auto
    have "size (add_mset m (mset (book_addrs (book ?s')))) = size (mset (book_addrs (book s)))"
      by (simp only: f(2))
    then have "int (length (book_addrs (book ?s'))) = int (length (book_addrs (book s))) - 1"
      by simp
    then show ?thesis using False f s1 by simp
  qed
  have "\<exists>k'. entry_list (opposite_tree a ?s') = drop k' (entry_list (opposite_tree a s0))"
  proof (cases "RemainingQuantity (mem s a) <s RemainingQuantity (mem s m)")
    case True
    then show ?thesis using wf k by auto
  next
    case False
    have "rest = drop 1 (entry_list (opposite_tree a s))" using hd by simp
    then have "rest = drop (Suc k) (entry_list (opposite_tree a s0))" using k by simp
    then show ?thesis using wf False by auto
  qed
  moreover have "mem ?s' x = mem s0 x" if "x \<noteq> a \<and> x \<notin> set (book_addrs (book s0))" for x
  proof -
    have "x \<noteq> m" using that mem_m sub by auto
    then show ?thesis using that frame executeTrade_frame [of x a m s] by simp
  qed
  moreover have "static_eq (mem ?s' x) (mem s0 x) \<and> quantities_step (mem s0 x) (mem ?s' x)" for x
    using stat executeTrade_static [of a m s x] executeTrade_quantities [OF ne pos posm, of x]
    by (blast intro: static_eq_trans quantities_step_trans)
  moreover have "a \<notin> set (book_addrs (book ?s'))" using wf fresh by auto
  moreover have "set (book_addrs (book ?s')) \<subseteq> set (book_addrs (book s0))" using wf sub by auto
  moreover have "OrdersInBook (counters ?s') - int (length (book_addrs (book ?s')))
        = OrdersInBook (counters s0) - int (length (book_addrs (book s0)))"
    using wf cnt executeTrade_in_book [OF ne, of s] by simp
  ultimately show ?thesis
    unfolding match_inv_def
    using wf others same bsym executeTrade_counters [of a m s] executeTrade_symbol [OF ne, of s]
    by simp
qed

lemma match_loop_inv:
  assumes ok: "book_ok (mem s0) symbol (book s0)" and fresh: "a \<notin> set (book_addrs (book s0))"
  shows "\<exists>tr s'. match_loop isLimit a [] s0 = Some (tr, s') \<and> match_inv symbol a s0 s' \<and>
           loop_done isLimit a s'"
proof -
  have "\<exists>tr s'. match_loop isLimit a [] s0 = Some (tr, s') \<and> (\<lambda>tr s. match_inv symbol a s0 s) tr s' \<and>
           loop_done isLimit a s'"
  proof (rule match_loop_rule [where symbol = symbol])
    show "match_inv symbol a s0 s0" using ok fresh by (rule match_inv_init)
    show "book_ok (mem s) symbol (book s) \<and> a \<notin> set (book_addrs (book s))"
      if "match_inv symbol a s0 s" for tr s
      using that by (simp add: match_inv_def)
    show "match_inv symbol a s0 (snd (executeTrade a m s))"
      if "match_inv symbol a s0 s" "0 <s RemainingQuantity (mem s a)"
        "entry_list (opposite_tree a s) = (p, m) # rest" for tr s p m rest
      using that by (rule match_inv_step)
  qed
  then show ?thesis by simp
qed

lemma finish_order_mem:
  "\<exists>st. mem (finish_order a trades s) = set_status (mem s) a st"
proof -
  have "(h(a := (h a)\<lparr>Status := st1\<rparr>))(a := ((h(a := (h a)\<lparr>Status := st1\<rparr>)) a)\<lparr>Status := st2\<rparr>)
        = set_status h a st2" for h :: store and st1 st2
    by (simp add: set_status_def)
  moreover have "h(a := (h a)\<lparr>Status := st1\<rparr>) = set_status h a st1" for h :: store and st1
    by (simp add: set_status_def)
  ultimately show ?thesis
    by (simp add: finish_order_def Let_def) (metis (full_types))
qed

lemma finish_order_book:
  "book (finish_order a trades s) =
     (if rests a s then AddOrder (mem (finish_order a trades s)) a (book s) else book s)"
  by (simp add: finish_order_def Let_def rests_def)

lemma finish_order_counters:
  "OrdersInBook (counters (finish_order a trades s)) =
     OrdersInBook (counters s) + (if rests a s then 1 else 0) \<and>
   OrdersReceived (counters (finish_order a trades s)) = OrdersReceived (counters s) \<and>
   OrdersCancelled (counters (finish_order a trades s)) = OrdersCancelled (counters s) \<and>
   TradesExecuted (counters (finish_order a trades s)) = TradesExecuted (counters s) + int (length trades) \<and>
   OrdersMatched (counters (finish_order a trades s)) =
     OrdersMatched (counters s) + (if trades = [] then 0 else int (length trades) + 1)"
  by (simp add: finish_order_def Let_def rests_def IncTradesExecuted_def IncOrdersMatched_def
      IncOrdersInBook_def)

lemma head_is_best:
  assumes "tree_ok desc t" and "entry_list t = (p, m) # rest" and "e \<in> set (entry_list t)"
  shows "fst e = p \<or> comes_before desc p (fst e)"
proof -
  have ne: "t \<noteq> []" using assms(2) by auto
  from tree_ok_head [OF assms(1) ne] obtain p' a l t' where
    t: "t = (p', a # l) # t'" by blast
  then have p: "p' = p" using assms(2) by simp
  obtain q x where e: "e = (q, x)" by (cases e)
  then have "\<exists>lv. (q, lv) \<in> set t" using assms(3) by (auto simp: entry_list_mem)
  then have "q = p \<or> q \<in> fst ` set t'" using t p by force
  moreover have "\<forall>k \<in> fst ` set t'. comes_before desc p k"
    using assms(1) t p by (simp add: tree_ok_def)
  ultimately show ?thesis using e by auto
qed

lemma AddOrder_addrs:
  assumes "tree_ok True (Bids ob)" and "tree_ok False (Asks ob)"
  shows "mset (book_addrs (AddOrder h a ob)) =
     (if Orders ob (ID (h a)) = None then add_mset a (mset (book_addrs ob)) else mset (book_addrs ob))"
  using assms
  by (cases "Side (h a)") (simp_all add: AddOrder_def Let_def book_addrs_def level_append_mset)

lemma AddOrder_symbol: "BookSymbol (AddOrder h a ob) = BookSymbol ob"
  by (simp add: AddOrder_def Let_def)

lemma sless_trans: "(a::int64) <s b \<Longrightarrow> b <s c \<Longrightarrow> a <s c"
  by (simp add: word_sless_alt)

lemma finish_ok:
  assumes inv: "match_inv symbol a s0 s1"
    and dn: "loop_done (Type (mem s0 a) = Limit) a s1"
    and flds: "Symbol (mem s0 a) = symbol" "0 <s OriginalQuantity (mem s0 a)"
  shows "book_ok (mem (finish_order a tr s1)) symbol (book (finish_order a tr s1)) \<and>
     mset (book_addrs (book (finish_order a tr s1))) =
       (if rests a s1 \<and> Orders (book s1) (ID (mem s1 a)) = None
        then add_mset a (mset (book_addrs (book s1))) else mset (book_addrs (book s1))) \<and>
     BookSymbol (book (finish_order a tr s1)) = BookSymbol (book s1)"
proof -
  obtain st where h1: "mem (finish_order a tr s1) = set_status (mem s1) a st"
    using finish_order_mem by blast
  let ?h1 = "set_status (mem s1) a st"
  have ok: "book_ok (mem s1) symbol (book s1)" and fresh: "a \<notin> set (book_addrs (book s1))"
    and stat: "static_eq (mem s1 a) (mem s0 a)"
    using inv by (simp_all add: match_inv_def)
  have ok1: "book_ok ?h1 symbol (book s1)"
    using ok
  proof (rule book_ok_frame)
    show "\<forall>x\<in>set (book_addrs (book s1)). ID (?h1 x) = ID (mem s1 x) \<and> Side (?h1 x) = Side (mem s1 x) \<and>
        Price (?h1 x) = Price (mem s1 x) \<and> Symbol (?h1 x) = Symbol (mem s1 x) \<and>
        Type (?h1 x) = Type (mem s1 x) \<and> OriginalQuantity (?h1 x) = OriginalQuantity (mem s1 x) \<and>
        0 <s RemainingQuantity (?h1 x)"
    proof
      fix x assume x: "x \<in> set (book_addrs (book s1))"
      then have "x \<noteq> a" using fresh by auto
      then have "?h1 x = mem s1 x" by (simp add: set_status_apply)
      then show "ID (?h1 x) = ID (mem s1 x) \<and> Side (?h1 x) = Side (mem s1 x) \<and>
        Price (?h1 x) = Price (mem s1 x) \<and> Symbol (?h1 x) = Symbol (mem s1 x) \<and>
        Type (?h1 x) = Type (mem s1 x) \<and> OriginalQuantity (?h1 x) = OriginalQuantity (mem s1 x) \<and>
        0 <s RemainingQuantity (?h1 x)"
        using resting_fields [OF ok x] by simp
    qed
  qed
  have trees: "tree_ok True (Bids (book s1))" "tree_ok False (Asks (book s1))"
    using ok by (simp_all add: book_ok_def)
  have ida: "ID (?h1 a) = ID (mem s1 a)" by (simp add: set_status_apply)
  show ?thesis
  proof (cases "rests a s1")
    case False
    then show ?thesis using ok1 by (simp add: finish_order_book h1)
  next
    case True
    then have pos: "0 <s RemainingQuantity (mem s1 a)" and lim: "Type (mem s1 a) = Limit"
      by (auto simp: rests_def intro: OrderType.exhaust)
    have isl: "Type (mem s0 a) = Limit" using lim stat by (simp add: static_eq_def)
    have a1: "Symbol (?h1 a) = symbol" "Type (?h1 a) = Limit" "0 <s RemainingQuantity (?h1 a)"
      "0 <s OriginalQuantity (?h1 a)"
      using stat flds lim pos by (simp_all add: set_status_apply static_eq_def)
    have tok: "tree_ok (Side (mem s1 a) \<noteq> Buy) (opposite_tree a s1)"
      using ok by (rule opposite_tree_ok)
    have nocross: "not_crossing a s1 (snd (p, m)) \<and> Price (mem s1 m) = p \<and>
        (\<forall>e \<in> set (entry_list (opposite_tree a s1)). fst e = p \<or>
            comes_before (Side (mem s1 a) \<noteq> Buy) p (fst e))"
      if "entry_list (opposite_tree a s1) = (p, m) # rest" for p m rest
    proof -
      have "not_crossing a s1 (snd (p, m))"
        using dn pos isl that by (simp add: loop_done_def)
      moreover have "Price (mem s1 m) = p" using opposite_head [OF ok that] by simp
      ultimately show ?thesis using head_is_best [OF tok that] by blast
    qed
    have nb: "Side (?h1 a) = Buy \<longrightarrow> (\<forall>e \<in> set (entry_list (Asks (book s1))). Price (?h1 a) <s fst e)"
    proof (intro impI ballI)
      fix e assume b: "Side (?h1 a) = Buy" and e: "e \<in> set (entry_list (Asks (book s1)))"
      have buy: "Side (mem s1 a) = Buy" using b by (simp add: set_status_apply)
      then have opp: "opposite_tree a s1 = Asks (book s1)" by (simp add: opposite_tree_def)
      obtain p m rest where hd: "entry_list (opposite_tree a s1) = (p, m) # rest"
        using e opp by (cases "entry_list (opposite_tree a s1)") auto
      from nocross [OF hd] have "Price (mem s1 a) <s p" "fst e = p \<or> p <s fst e"
        using buy e opp by (auto simp: not_crossing_def comes_before_def)
      then show "Price (?h1 a) <s fst e"
        by (auto simp: set_status_apply intro: sless_trans)
    qed
    have ns: "Side (?h1 a) = Sell \<longrightarrow> (\<forall>e \<in> set (entry_list (Bids (book s1))). fst e <s Price (?h1 a))"
    proof (intro impI ballI)
      fix e assume b: "Side (?h1 a) = Sell" and e: "e \<in> set (entry_list (Bids (book s1)))"
      have sell: "Side (mem s1 a) \<noteq> Buy" using b by (simp add: set_status_apply)
      then have opp: "opposite_tree a s1 = Bids (book s1)" by (simp add: opposite_tree_def)
      obtain p m rest where hd: "entry_list (opposite_tree a s1) = (p, m) # rest"
        using e opp by (cases "entry_list (opposite_tree a s1)") auto
      from nocross [OF hd] have "p <s Price (mem s1 a)" "fst e = p \<or> fst e <s p"
        using sell e opp by (auto simp: not_crossing_def comes_before_def)
      then show "fst e <s Price (?h1 a)"
        by (auto simp: set_status_apply intro: sless_trans)
    qed
    have "book_ok ?h1 symbol (AddOrder ?h1 a (book s1))"
      using ok1 fresh a1 nb ns by (rule AddOrder_ok)
    then show ?thesis
      using True AddOrder_addrs [OF trees, of ?h1 a] ida
      by (simp add: finish_order_book h1 AddOrder_symbol)
  qed
qed

lemma ProcessOrder_commit:
  assumes "Validate (heap e a) = None" and "\<not> illiquid e a"
  shows "ProcessOrder a e =
     (case match_loop (Type (heap e a) = Limit) a [] (start_matching e (Symbol (heap e a))) of
        None \<Rightarrow> None
      | Some (trades, s1) \<Rightarrow> Some (Inr (a, trades), commit e a (finish_order a trades s1)))"
proof -
  have na: "\<not> (Type (heap e a) = Market \<and>
          CalculateLiquidity (heap e) (Side (heap e a)) (OriginalQuantity (heap e a))
           (book_of e (Symbol (heap e a))) <s OriginalQuantity (heap e a))"
    using assms(2) by (simp add: illiquid_def)
  show ?thesis
    unfolding ProcessOrder_matched [OF assms(1) na] start_matching_def
    by (simp add: commit_def split: option.splits)
qed

lemma book_ok_new: "book_ok h symbol (NewOrderBook symbol)"
  by (simp add: book_ok_def NewOrderBook_def tree_ok_def book_addrs_def)

lemma book_of_ok:
  assumes "engine_ok e"
  shows "book_ok (heap e) symbol (book_of e symbol) \<and> BookSymbol (book_of e symbol) = symbol \<and>
         (\<forall>a \<in> set (book_addrs (book_of e symbol)). a < next_addr e)"
proof (cases "OrderBooks e symbol")
  case None
  then show ?thesis
    by (simp add: book_of_def book_ok_new) (simp add: NewOrderBook_def book_addrs_def)
next
  case (Some ob)
  then show ?thesis using assms by (simp add: book_of_def engine_ok_def)
qed

lemma book_of_unbooked: "unbooked e a \<Longrightarrow> a \<notin> set (book_addrs (book_of e symbol))"
  by (cases "OrderBooks e symbol")
     (auto simp: unbooked_def book_of_def NewOrderBook_def book_addrs_def)

lemma matching_outcome:
  assumes ok: "engine_ok e" and ub: "unbooked e a"
  shows "\<exists>tr s1. match_loop isLimit a [] (start_matching e symbol) = Some (tr, s1) \<and>
           match_inv symbol a (start_matching e symbol) s1 \<and> loop_done isLimit a s1"
proof (rule match_loop_inv)
  show "book_ok (mem (start_matching e symbol)) symbol (book (start_matching e symbol))"
    using book_of_ok [OF ok, of symbol] by (simp add: start_matching_def)
  show "a \<notin> set (book_addrs (book (start_matching e symbol)))"
    using book_of_unbooked [OF ub] by (simp add: start_matching_def)
qed

lemma Validate_pos: "Validate ord = None \<Longrightarrow> 0 <s OriginalQuantity ord"
  by (auto simp: Validate_def word_sle_eq word_sless_alt split: if_splits)

lemma set_status_static: "static_eq (set_status h a st x) (h x)"
  by (simp add: set_status_apply static_eq_def)

lemma set_status_quantities: "quantities_step y (set_status h a st x) = quantities_step y (h x)"
  by (simp add: set_status_apply quantities_step_def quantities_ok_def)

lemma finish_frame:
  assumes inv: "match_inv symbol a s0 s1"
  shows "static_eq (mem (finish_order a tr s1) x) (mem s0 x) \<and>
         quantities_step (mem s0 x) (mem (finish_order a tr s1) x) \<and>
         (x \<noteq> a \<and> x \<notin> set (book_addrs (book s0)) \<longrightarrow> mem (finish_order a tr s1) x = mem s0 x)"
proof -
  obtain st where h1: "mem (finish_order a tr s1) = set_status (mem s1) a st"
    using finish_order_mem by blast
  have f: "static_eq (mem s1 x) (mem s0 x)" "quantities_step (mem s0 x) (mem s1 x)"
    "x \<noteq> a \<and> x \<notin> set (book_addrs (book s0)) \<longrightarrow> mem s1 x = mem s0 x"
    using inv by (simp_all add: match_inv_def)
  have 1: "static_eq (set_status (mem s1) a st x) (mem s0 x)"
    using set_status_static [of "mem s1" a st x] f(1) by (rule static_eq_trans)
  have 2: "quantities_step (mem s0 x) (set_status (mem s1) a st x)"
    using f(2) by (simp add: set_status_quantities)
  have 3: "x \<noteq> a \<and> x \<notin> set (book_addrs (book s0)) \<longrightarrow> set_status (mem s1) a st x = mem s0 x"
    using f(3) by (simp add: set_status_apply)
  show ?thesis unfolding h1 using 1 2 3 by blast
qed

lemma commit_ok:
  assumes ok: "engine_ok e" and a: "a < next_addr e" and ub: "unbooked e a"
    and valid: "Validate (heap e a) = None"
    and inv: "match_inv (Symbol (heap e a)) a (start_matching e (Symbol (heap e a))) s1"
    and dn: "loop_done (Type (heap e a) = Limit) a s1"
  shows "engine_ok (commit e a (finish_order a tr s1))"
proof -
  let ?sym = "Symbol (heap e a)"
  let ?s0 = "start_matching e ?sym"
  let ?fin = "finish_order a tr s1"
  have m0: "mem ?s0 = heap e" and b0: "book ?s0 = book_of e ?sym"
    by (simp_all add: start_matching_def)
  have bo: "book_ok (heap e) ?sym (book_of e ?sym)" "BookSymbol (book_of e ?sym) = ?sym"
    "\<forall>x \<in> set (book_addrs (book_of e ?sym)). x < next_addr e"
    using book_of_ok [OF ok, of ?sym] by simp_all
  have dn': "loop_done (Type (mem ?s0 a) = Limit) a s1" using dn by (simp add: m0)
  have fl: "Symbol (mem ?s0 a) = ?sym" "0 <s OriginalQuantity (mem ?s0 a)"
    using Validate_pos [OF valid] by (simp_all add: m0)
  have fin: "book_ok (mem ?fin) ?sym (book ?fin)"
    "mset (book_addrs (book ?fin)) =
       (if rests a s1 \<and> Orders (book s1) (ID (mem s1 a)) = None
        then add_mset a (mset (book_addrs (book s1))) else mset (book_addrs (book s1)))"
    "BookSymbol (book ?fin) = BookSymbol (book s1)"
    using finish_ok [OF inv dn' fl, of tr] by simp_all
  have sub1: "set (book_addrs (book s1)) \<subseteq> set (book_addrs (book_of e ?sym))"
    and bs1: "BookSymbol (book s1) = ?sym"
    using inv bo by (simp_all add: match_inv_def b0)
  have "set_mset (mset (book_addrs (book ?fin))) \<subseteq> insert a (set (book_addrs (book s1)))"
    unfolding fin(2) by auto
  then have subf: "set (book_addrs (book ?fin)) \<subseteq> insert a (set (book_addrs (book_of e ?sym)))"
    using sub1 by auto
  have fr: "static_eq (mem ?fin x) (heap e x)" "quantities_step (heap e x) (mem ?fin x)"
    "x \<noteq> a \<and> x \<notin> set (book_addrs (book_of e ?sym)) \<longrightarrow> mem ?fin x = heap e x" for x
    using finish_frame [OF inv, of tr x] by (simp_all add: m0 b0)
  have books: "book_ok (mem ?fin) symbol ob \<and> BookSymbol ob = symbol \<and>
      (\<forall>x \<in> set (book_addrs ob). x < next_addr e)"
    if "((OrderBooks e)(?sym \<mapsto> book ?fin)) symbol = Some ob" for symbol ob
  proof (cases "symbol = ?sym")
    case True
    then have "ob = book ?fin" using that by simp
    then show ?thesis using True fin bs1 subf bo(3) a by auto
  next
    case False
    then have ob: "OrderBooks e symbol = Some ob" using that by simp
    then have old: "book_ok (heap e) symbol ob" "BookSymbol ob = symbol"
      "\<forall>x \<in> set (book_addrs ob). x < next_addr e"
      using ok by (simp_all add: engine_ok_def)
    have same: "mem ?fin x = heap e x" if x: "x \<in> set (book_addrs ob)" for x
    proof -
      have "x \<noteq> a" using ub ob x by (auto simp: unbooked_def)
      moreover have "x \<notin> set (book_addrs (book_of e ?sym))"
      proof
        assume "x \<in> set (book_addrs (book_of e ?sym))"
        then have "Symbol (heap e x) = ?sym" using resting_fields [OF bo(1)] by simp
        moreover have "Symbol (heap e x) = symbol" using resting_fields [OF old(1) x] by simp
        ultimately show False using False by simp
      qed
      ultimately show ?thesis using fr(3) by blast
    qed
    have "book_ok (mem ?fin) symbol ob"
      using old(1)
    proof (rule book_ok_frame)
      show "\<forall>x\<in>set (book_addrs ob). ID (mem ?fin x) = ID (heap e x) \<and> Side (mem ?fin x) = Side (heap e x) \<and>
        Price (mem ?fin x) = Price (heap e x) \<and> Symbol (mem ?fin x) = Symbol (heap e x) \<and>
        Type (mem ?fin x) = Type (heap e x) \<and> OriginalQuantity (mem ?fin x) = OriginalQuantity (heap e x) \<and>
        0 <s RemainingQuantity (mem ?fin x)"
      proof
        fix x assume x: "x \<in> set (book_addrs ob)"
        show "ID (mem ?fin x) = ID (heap e x) \<and> Side (mem ?fin x) = Side (heap e x) \<and>
          Price (mem ?fin x) = Price (heap e x) \<and> Symbol (mem ?fin x) = Symbol (heap e x) \<and>
          Type (mem ?fin x) = Type (heap e x) \<and> OriginalQuantity (mem ?fin x) = OriginalQuantity (heap e x) \<and>
          0 <s RemainingQuantity (mem ?fin x)"
          using same [OF x] resting_fields [OF old(1) x] by simp
      qed
    qed
    then show ?thesis using old by simp
  qed
  have quant: "quantities_ok (mem ?fin x)" if "x < next_addr e" "0 <s OriginalQuantity (mem ?fin x)" for x
  proof -
    have "OriginalQuantity (mem ?fin x) = OriginalQuantity (heap e x)"
      using fr(1) [of x] by (simp add: static_eq_def)
    then have "quantities_ok (heap e x)" using that ok by (simp add: engine_ok_def)
    then show ?thesis using fr(2) [of x] by (simp add: quantities_step_def)
  qed
  have reg: "x < next_addr e \<and> ID (mem ?fin x) = oid"
    if "((AllOrders e)(ID (heap e a) \<mapsto> a)) oid = Some x" for oid x
  proof (cases "oid = ID (heap e a)")
    case True
    then have "x = a" using that by simp
    then show ?thesis using True a fr(1) [of a] by (simp add: static_eq_def)
  next
    case False
    then have "AllOrders e oid = Some x" using that by simp
    then have "x < next_addr e" "ID (heap e x) = oid" using ok by (simp_all add: engine_ok_def)
    then show ?thesis using fr(1) [of x] by (simp add: static_eq_def)
  qed
  have fin_dom: "finite (dom ((OrderBooks e)(?sym \<mapsto> book ?fin)))"
    using ok by (simp add: engine_ok_def)
  have c: "heap (commit e a ?fin) = mem ?fin"
    "OrderBooks (commit e a ?fin) = (OrderBooks e)(?sym \<mapsto> book ?fin)"
    "AllOrders (commit e a ?fin) = (AllOrders e)(ID (heap e a) \<mapsto> a)"
    "next_addr (commit e a ?fin) = next_addr e"
    by (simp_all add: commit_def)
  show ?thesis
    unfolding engine_ok_def c
  proof (intro conjI allI impI)
    fix symbol ob assume "((OrderBooks e)(?sym \<mapsto> book ?fin)) symbol = Some ob"
    from books [OF this]
    show "book_ok (mem ?fin) symbol ob" "BookSymbol ob = symbol"
      "\<forall>x \<in> set (book_addrs ob). x < next_addr e" by blast+
  next
    fix x assume "x < next_addr e" "0 <s OriginalQuantity (mem ?fin x)"
    then show "quantities_ok (mem ?fin x)" by (rule quant)
  next
    fix oid x assume "((AllOrders e)(ID (heap e a) \<mapsto> a)) oid = Some x"
    from reg [OF this] show "x < next_addr e" "ID (mem ?fin x) = oid" by blast+
  next
    show "finite (dom ((OrderBooks e)(?sym \<mapsto> book ?fin)))" by (rule fin_dom)
  qed
qed

lemma NewEngine_ok: "engine_ok (NewEngine h)"
  by (simp add: engine_ok_def NewEngine_def)

lemma engine_ok_frame:
  assumes ok: "engine_ok e"
    and same: "\<forall>x < next_addr e. static_eq (h' x) (heap e x) \<and>
                 RemainingQuantity (h' x) = RemainingQuantity (heap e x) \<and>
                 FilledQuantity (h' x) = FilledQuantity (heap e x)"
    and books: "\<forall>symbol ob. bs symbol = Some ob \<longrightarrow>
                  OrderBooks e symbol = Some ob \<or> ob = NewOrderBook symbol \<or> ob = book_of e symbol"
    and reg: "\<forall>oid x. r oid = Some x \<longrightarrow> AllOrders e oid = Some x"
    and fin: "finite (dom bs)"
  shows "engine_ok (e\<lparr>heap := h', OrderBooks := bs, AllOrders := r, metrics := m\<rparr>)"
proof -
  have bk: "book_ok h' symbol ob \<and> BookSymbol ob = symbol \<and> (\<forall>a \<in> set (book_addrs ob). a < next_addr e)"
    if "bs symbol = Some ob" for symbol ob
  proof -
    have old: "book_ok (heap e) symbol ob \<and> BookSymbol ob = symbol \<and>
        (\<forall>a \<in> set (book_addrs ob). a < next_addr e)"
    proof -
      from books that consider "OrderBooks e symbol = Some ob" | "ob = NewOrderBook symbol"
        | "ob = book_of e symbol" by blast
      then show ?thesis
      proof cases
        case 1
        then show ?thesis using ok by (simp add: engine_ok_def)
      next
        case 2
        then show ?thesis by (simp add: book_ok_new) (simp add: NewOrderBook_def book_addrs_def)
      next
        case 3
        then show ?thesis using book_of_ok [OF ok, of symbol] by simp
      qed
    qed
    then have o1: "book_ok (heap e) symbol ob" by simp
    have "book_ok h' symbol ob"
      using o1
    proof (rule book_ok_frame)
      show "\<forall>x\<in>set (book_addrs ob). ID (h' x) = ID (heap e x) \<and> Side (h' x) = Side (heap e x) \<and>
        Price (h' x) = Price (heap e x) \<and> Symbol (h' x) = Symbol (heap e x) \<and>
        Type (h' x) = Type (heap e x) \<and> OriginalQuantity (h' x) = OriginalQuantity (heap e x) \<and>
        0 <s RemainingQuantity (h' x)"
      proof
        fix x assume x: "x \<in> set (book_addrs ob)"
        then have "x < next_addr e" using old by simp
        then have "static_eq (h' x) (heap e x)" "RemainingQuantity (h' x) = RemainingQuantity (heap e x)"
          using same by simp_all
        then show "ID (h' x) = ID (heap e x) \<and> Side (h' x) = Side (heap e x) \<and>
          Price (h' x) = Price (heap e x) \<and> Symbol (h' x) = Symbol (heap e x) \<and>
          Type (h' x) = Type (heap e x) \<and> OriginalQuantity (h' x) = OriginalQuantity (heap e x) \<and>
          0 <s RemainingQuantity (h' x)"
          using resting_fields [OF o1 x] by (simp add: static_eq_def)
      qed
    qed
    then show ?thesis using old by simp
  qed
  have q: "quantities_ok (h' x)" if "x < next_addr e" "0 <s OriginalQuantity (h' x)" for x
  proof -
    have s: "static_eq (h' x) (heap e x)" "RemainingQuantity (h' x) = RemainingQuantity (heap e x)"
      "FilledQuantity (h' x) = FilledQuantity (heap e x)"
      using same that(1) by simp_all
    then have "quantities_ok (heap e x)" using that ok by (simp add: engine_ok_def static_eq_def)
    then show ?thesis using s by (simp add: quantities_ok_def static_eq_def)
  qed
  have rg: "x < next_addr e \<and> ID (h' x) = oid" if "r oid = Some x" for oid x
  proof -
    have "AllOrders e oid = Some x" using reg that by simp
    then have "x < next_addr e" "ID (heap e x) = oid" using ok by (simp_all add: engine_ok_def)
    then show ?thesis using same by (simp add: static_eq_def)
  qed
  show ?thesis
    unfolding engine_ok_def
  proof (intro conjI allI impI)
    fix symbol ob
    assume "OrderBooks (e\<lparr>heap := h', OrderBooks := bs, AllOrders := r, metrics := m\<rparr>) symbol = Some ob"
    then have "bs symbol = Some ob" by simp
    from bk [OF this]
    show "book_ok (heap (e\<lparr>heap := h', OrderBooks := bs, AllOrders := r, metrics := m\<rparr>)) symbol ob"
      "BookSymbol ob = symbol"
      "\<forall>a \<in> set (book_addrs ob). a < next_addr (e\<lparr>heap := h', OrderBooks := bs, AllOrders := r, metrics := m\<rparr>)"
      by simp_all
  next
    fix x
    assume "x < next_addr (e\<lparr>heap := h', OrderBooks := bs, AllOrders := r, metrics := m\<rparr>)"
      "0 <s OriginalQuantity (heap (e\<lparr>heap := h', OrderBooks := bs, AllOrders := r, metrics := m\<rparr>) x)"
    then show "quantities_ok (heap (e\<lparr>heap := h', OrderBooks := bs, AllOrders := r, metrics := m\<rparr>) x)"
      using q by simp
  next
    fix oid x
    assume "AllOrders (e\<lparr>heap := h', OrderBooks := bs, AllOrders := r, metrics := m\<rparr>) oid = Some x"
    then have "r oid = Some x" by simp
    from rg [OF this]
    show "x < next_addr (e\<lparr>heap := h', OrderBooks := bs, AllOrders := r, metrics := m\<rparr>)"
      "ID (heap (e\<lparr>heap := h', OrderBooks := bs, AllOrders := r, metrics := m\<rparr>) x) = oid"
      by simp_all
  next
    show "finite (dom (OrderBooks (e\<lparr>heap := h', OrderBooks := bs, AllOrders := r, metrics := m\<rparr>)))"
      using fin by simp
  qed
qed

lemma lazy_books:
  "\<forall>s ob. ((OrderBooks e)(symbol \<mapsto> book_of e symbol)) s = Some ob \<longrightarrow>
      OrderBooks e s = Some ob \<or> ob = NewOrderBook s \<or> ob = book_of e s"
  by auto

lemma getOrderBook_ok: "engine_ok e \<Longrightarrow> engine_ok (snd (getOrderBook symbol e))"
proof -
  assume ok: "engine_ok e"
  have "engine_ok (e\<lparr>heap := heap e, OrderBooks := (OrderBooks e)(symbol \<mapsto> book_of e symbol),
                    AllOrders := AllOrders e, metrics := metrics e\<rparr>)"
    using ok
  proof (rule engine_ok_frame)
    show "finite (dom ((OrderBooks e)(symbol \<mapsto> book_of e symbol)))"
      using ok by (simp add: engine_ok_def)
  qed (use lazy_books in auto)
  then show ?thesis by (simp add: getOrderBook_eq)
qed

lemma metrics_ok: "engine_ok e \<Longrightarrow> engine_ok (e\<lparr>metrics := m\<rparr>)"
  by (simp add: engine_ok_def)

lemma allocate_ok:
  assumes ok: "engine_ok e" and q: "0 <s OriginalQuantity ord \<longrightarrow> quantities_ok ord"
  shows "engine_ok (allocate ord e) \<and> unbooked (allocate ord e) (next_addr e)"
proof -
  let ?n = "next_addr e"
  let ?h = "(heap e)(?n := ord)"
  have bk: "book_ok ?h symbol ob \<and> BookSymbol ob = symbol \<and> (\<forall>a \<in> set (book_addrs ob). a < Suc ?n) \<and>
      ?n \<notin> set (book_addrs ob)"
    if "OrderBooks e symbol = Some ob" for symbol ob
  proof -
    have old: "book_ok (heap e) symbol ob" "BookSymbol ob = symbol"
      "\<forall>a \<in> set (book_addrs ob). a < ?n"
      using ok that by (simp_all add: engine_ok_def)
    have nin: "?n \<notin> set (book_addrs ob)" using old(3) by auto
    have "book_ok ?h symbol ob"
      using old(1)
    proof (rule book_ok_frame)
      show "\<forall>x\<in>set (book_addrs ob). ID (?h x) = ID (heap e x) \<and> Side (?h x) = Side (heap e x) \<and>
        Price (?h x) = Price (heap e x) \<and> Symbol (?h x) = Symbol (heap e x) \<and>
        Type (?h x) = Type (heap e x) \<and> OriginalQuantity (?h x) = OriginalQuantity (heap e x) \<and>
        0 <s RemainingQuantity (?h x)"
      proof
        fix x assume x: "x \<in> set (book_addrs ob)"
        then have "x \<noteq> ?n" using nin by auto
        then show "ID (?h x) = ID (heap e x) \<and> Side (?h x) = Side (heap e x) \<and>
          Price (?h x) = Price (heap e x) \<and> Symbol (?h x) = Symbol (heap e x) \<and>
          Type (?h x) = Type (heap e x) \<and> OriginalQuantity (?h x) = OriginalQuantity (heap e x) \<and>
          0 <s RemainingQuantity (?h x)"
          using resting_fields [OF old(1) x] by simp
      qed
    qed
    then show ?thesis using old nin by (simp add: less_Suc_eq)
  qed
  have qs: "\<forall>a < Suc ?n. 0 <s OriginalQuantity (?h a) \<longrightarrow> quantities_ok (?h a)"
    using ok q by (simp add: engine_ok_def less_Suc_eq)
  have rg: "\<forall>oid a. AllOrders e oid = Some a \<longrightarrow> a < Suc ?n \<and> ID (?h a) = oid"
  proof (intro allI impI)
    fix oid a assume "AllOrders e oid = Some a"
    then have "a < ?n" "ID (heap e a) = oid" using ok by (simp_all add: engine_ok_def)
    then show "a < Suc ?n \<and> ID (?h a) = oid" by simp
  qed
  have fin: "finite (dom (OrderBooks e))" using ok by (simp add: engine_ok_def)
  show ?thesis
    unfolding engine_ok_def unbooked_def allocate_def
    using bk qs rg fin by simp
qed

lemma NewOrder_quantities:
  "0 <s OriginalQuantity (NewOrder oid symbol side ty price qty now) \<longrightarrow>
     quantities_ok (NewOrder oid symbol side ty price qty now)"
  by (simp add: NewOrder_def quantities_ok_def word_sle_eq word_sless_alt)

lemma ProcessOrder_ok:
  assumes ok: "engine_ok e" and a: "a < next_addr e" and ub: "unbooked e a"
  shows "\<exists>r e'. ProcessOrder a e = Some (r, e') \<and> engine_ok e'"
proof (cases "Validate (heap e a)")
  case (Some err)
  show ?thesis
    unfolding ProcessOrder_invalid [OF Some] using metrics_ok [OF ok] by simp
next
  case None
  show ?thesis
  proof (cases "illiquid e a")
    case True
    then have t: "Type (heap e a) = Market"
      and l: "CalculateLiquidity (heap e) (Side (heap e a)) (OriginalQuantity (heap e a))
           (book_of e (Symbol (heap e a))) <s OriginalQuantity (heap e a)"
      by (simp_all add: illiquid_def)
    have "engine_ok (e\<lparr>heap := heap e,
             OrderBooks := (OrderBooks e)(Symbol (heap e a) \<mapsto> book_of e (Symbol (heap e a))),
             AllOrders := (AllOrders e)(ID (heap e a) := None),
             metrics := IncOrdersReceived (metrics e)\<rparr>)"
      using ok
    proof (rule engine_ok_frame)
      show "finite (dom ((OrderBooks e)(Symbol (heap e a) \<mapsto> book_of e (Symbol (heap e a)))))"
        using ok by (simp add: engine_ok_def)
      show "\<forall>oid x. ((AllOrders e)(ID (heap e a) := None)) oid = Some x \<longrightarrow> AllOrders e oid = Some x"
        by (simp split: if_splits)
    qed (use lazy_books in auto)
    then show ?thesis
      unfolding ProcessOrder_illiquid [OF None t l] by simp
  next
    case False
    obtain tr s1 where
      m: "match_loop (Type (heap e a) = Limit) a [] (start_matching e (Symbol (heap e a))) = Some (tr, s1)"
      and inv: "match_inv (Symbol (heap e a)) a (start_matching e (Symbol (heap e a))) s1"
      and dn: "loop_done (Type (heap e a) = Limit) a s1"
      using matching_outcome [OF ok ub] by blast
    have "engine_ok (commit e a (finish_order a tr s1))"
      using ok a ub None inv dn by (rule commit_ok)
    then show ?thesis
      unfolding ProcessOrder_commit [OF None False] m by simp
  qed
qed

lemma submit_ok:
  assumes ok: "engine_ok e"
  shows "\<exists>r e'. submit oid symbol side ty price qty now e = Some (r, e') \<and> engine_ok e'"
proof -
  let ?e0 = "allocate (NewOrder oid symbol side ty price qty now) e"
  have 1: "engine_ok ?e0" "unbooked ?e0 (next_addr e)"
    using allocate_ok [OF ok NewOrder_quantities] by blast+
  have 2: "next_addr e < next_addr ?e0" by (simp add: allocate_def)
  show ?thesis unfolding submit_def using ProcessOrder_ok [OF 1(1) 2 1(2)] .
qed

lemma GetOrderBookDepth_ok: "engine_ok e \<Longrightarrow> engine_ok (snd (GetOrderBookDepth symbol depthLimit e))"
  using getOrderBook_ok [of e symbol] by (simp add: GetOrderBookDepth_def Let_def)

lemma RemoveOrder_case:
  "(case RemoveOrder h oid ob of (None, ob') \<Rightarrow> g ob' | (Some r, ob') \<Rightarrow> f r ob') =
   (case Orders ob oid of None \<Rightarrow> g (snd (RemoveOrder h oid ob))
      | Some r \<Rightarrow> f r (snd (RemoveOrder h oid ob)))"
proof -
  obtain r ob' where ro: "RemoveOrder h oid ob = (r, ob')" by (cases "RemoveOrder h oid ob")
  have r: "Orders ob oid = r" using RemoveOrder_fst [of h oid ob] ro by simp
  show ?thesis unfolding r ro by (cases r) simp_all
qed

lemma CancelOrder_live:
  assumes reg: "AllOrders e oid = Some a"
    and st: "Status (heap e a) \<noteq> Filled" "Status (heap e a) \<noteq> Cancelled"
  shows "CancelOrder oid e =
     (case Orders (book_of e (Symbol (heap e a))) oid of
        Some r \<Rightarrow>
          (Inr r,
           e\<lparr>heap := set_status (heap e) r Cancelled,
             OrderBooks := (OrderBooks e)(Symbol (heap e a) \<mapsto>
                 snd (RemoveOrder (heap e) oid (book_of e (Symbol (heap e a))))),
             metrics := DecOrdersInBook (IncOrdersCancelled (metrics e))\<rparr>)
      | None \<Rightarrow>
          (Inr a,
           e\<lparr>heap := set_status (heap e) a Cancelled,
             OrderBooks := (OrderBooks e)(Symbol (heap e a) \<mapsto> book_of e (Symbol (heap e a))),
             metrics := IncOrdersCancelled (metrics e)\<rparr>))"
  using reg st
  by (simp add: CancelOrder_def Let_def getOrderBook_eq set_status_def RemoveOrder_case
      split: option.splits)

lemma CancelOrder_dead:
  "AllOrders e oid = None \<Longrightarrow> CancelOrder oid e = (Inl OrderNotFound, e)"
  "AllOrders e oid = Some a \<Longrightarrow> Status (heap e a) = Filled \<Longrightarrow> CancelOrder oid e = (Inl AlreadyFilled, e)"
  "AllOrders e oid = Some a \<Longrightarrow> Status (heap e a) = Cancelled \<Longrightarrow> CancelOrder oid e = (Inr a, e)"
  by (simp_all add: CancelOrder_def)

lemma status_frame:
  "\<forall>x < n. static_eq (set_status h a st x) (h x) \<and>
     RemainingQuantity (set_status h a st x) = RemainingQuantity (h x) \<and>
     FilledQuantity (set_status h a st x) = FilledQuantity (h x)"
  by (simp add: set_status_apply static_eq_def)

lemma engine_ok_book:
  assumes ok: "engine_ok e"
    and bk: "book_ok (heap e) symbol ob" "BookSymbol ob = symbol"
      "\<forall>a \<in> set (book_addrs ob). a < next_addr e"
  shows "engine_ok (e\<lparr>OrderBooks := (OrderBooks e)(symbol \<mapsto> ob)\<rparr>)"
  using ok bk unfolding engine_ok_def by simp

lemma CancelOrder_ok:
  assumes ok: "engine_ok e"
  shows "engine_ok (snd (CancelOrder oid e))"
proof (cases "AllOrders e oid")
  case None
  then show ?thesis using ok by (simp add: CancelOrder_dead)
next
  case (Some a)
  show ?thesis
  proof (cases "Status (heap e a) = Filled \<or> Status (heap e a) = Cancelled")
    case True
    then show ?thesis using ok Some by (auto simp: CancelOrder_dead)
  next
    case False
    then have st: "Status (heap e a) \<noteq> Filled" "Status (heap e a) \<noteq> Cancelled" by simp_all
    let ?sym = "Symbol (heap e a)"
    let ?ob = "book_of e ?sym"
    have bo: "book_ok (heap e) ?sym ?ob" "BookSymbol ?ob = ?sym"
      "\<forall>a \<in> set (book_addrs ?ob). a < next_addr e"
      using book_of_ok [OF ok, of ?sym] by simp_all
    show ?thesis
    proof (cases "Orders ?ob oid")
      case None
      have "engine_ok (e\<lparr>heap := set_status (heap e) a Cancelled,
             OrderBooks := (OrderBooks e)(?sym \<mapsto> ?ob), AllOrders := AllOrders e,
             metrics := IncOrdersCancelled (metrics e)\<rparr>)"
        using ok
      proof (rule engine_ok_frame)
        show "finite (dom ((OrderBooks e)(?sym \<mapsto> ?ob)))" using ok by (simp add: engine_ok_def)
      qed (use lazy_books status_frame in auto)
      then show ?thesis
        unfolding CancelOrder_live [OF Some st] using None by simp
    next
      case rm: (Some r)
      let ?ob' = "snd (RemoveOrder (heap e) oid ?ob)"
      have ro: "book_ok (heap e) ?sym ?ob'"
        "add_mset r (mset (book_addrs ?ob')) = mset (book_addrs ?ob)"
        using RemoveOrder_ok [OF bo(1) rm] by simp_all
      have "set_mset (mset (book_addrs ?ob')) \<subseteq> set_mset (mset (book_addrs ?ob))"
        unfolding ro(2) [symmetric] by auto
      then have sub: "\<forall>a \<in> set (book_addrs ?ob'). a < next_addr e" using bo(3) by auto
      have sy: "BookSymbol ?ob' = ?sym" using bo(2) by (simp add: RemoveOrder_symbol)
      have 1: "engine_ok (e\<lparr>OrderBooks := (OrderBooks e)(?sym \<mapsto> ?ob')\<rparr>)"
        using ok ro(1) sy sub by (rule engine_ok_book)
      let ?e1 = "e\<lparr>OrderBooks := (OrderBooks e)(?sym \<mapsto> ?ob')\<rparr>"
      have "engine_ok (?e1\<lparr>heap := set_status (heap e) r Cancelled,
             OrderBooks := OrderBooks ?e1, AllOrders := AllOrders ?e1,
             metrics := DecOrdersInBook (IncOrdersCancelled (metrics e))\<rparr>)"
        using 1
      proof (rule engine_ok_frame)
        show "finite (dom (OrderBooks ?e1))" using ok by (simp add: engine_ok_def)
        show "\<forall>x<next_addr ?e1. static_eq (set_status (heap e) r Cancelled x) (heap ?e1 x) \<and>
           RemainingQuantity (set_status (heap e) r Cancelled x) = RemainingQuantity (heap ?e1 x) \<and>
           FilledQuantity (set_status (heap e) r Cancelled x) = FilledQuantity (heap ?e1 x)"
          using status_frame [of "next_addr e" "heap e" r Cancelled] by simp
      qed auto
      then show ?thesis
        unfolding CancelOrder_live [OF Some st] using rm by simp
    qed
  qed
qed

lemma step_ok:
  assumes ok: "engine_ok e"
  shows "\<exists>e'. step r e = Some e' \<and> engine_ok e'"
proof (cases r)
  case (Submit oid symbol side ty price qty now)
  then show ?thesis using submit_ok [OF ok, of oid symbol side ty price qty now] by auto
next
  case (Cancel oid)
  then show ?thesis using CancelOrder_ok [OF ok] by simp
next
  case (Depth symbol depthLimit)
  then show ?thesis using GetOrderBookDepth_ok [OF ok] by simp
qed

lemma run_ok:
  "engine_ok e \<Longrightarrow> \<exists>e'. run rs e = Some e' \<and> engine_ok e'"
proof (induction rs arbitrary: e)
  case Nil
  then show ?case by simp
next
  case (Cons r rs)
  from step_ok [OF Cons.prems, of r] obtain e1 where 1: "step r e = Some e1" "engine_ok e1" by blast
  from Cons.IH [OF 1(2)] show ?case using 1(1) by simp
qed

lemma reachable_ok: "run rs (NewEngine h) = Some e \<Longrightarrow> engine_ok e"
  using run_ok [OF NewEngine_ok, of rs h] by auto

lemma run_total: "\<exists>e. run rs (NewEngine h) = Some e"
  using run_ok [OF NewEngine_ok, of rs h] by auto




lemma level_total_wrap:
  "snd (level_total h lv) = word_of_int (\<Sum>a\<leftarrow>snd lv. sint (RemainingQuantity (h a)))"
proof -
  have "sum_list ws = word_of_int (sum_list (map sint ws))" for ws :: "int64 list"
    by (induction ws) simp_all
  from this [of "map (\<lambda>a. RemainingQuantity (h a)) (snd lv)"]
  show ?thesis by (simp add: level_total_def comp_def)
qed

lemma level_total_exact:
  assumes "\<forall>a \<in> set (snd lv). 0 <s RemainingQuantity (h a)"
    and "(\<Sum>a\<leftarrow>snd lv. sint (RemainingQuantity (h a))) < 9223372036854775808"
  shows "sint (snd (level_total h lv)) = (\<Sum>a\<leftarrow>snd lv. sint (RemainingQuantity (h a)))"
proof -
  have "\<forall>w \<in> set (map (\<lambda>a. RemainingQuantity (h a)) (snd lv)). 0 \<le>s w"
    using assms(1) by (auto simp: word_sle_eq word_sless_alt)
  from sint_sum_list [OF this] assms(2)
  show ?thesis by (simp add: level_total_def comp_def)
qed

lemma GetDepth_eq:
  "GetDepth h depthLimit ob =
     \<lparr>DepthSymbol = BookSymbol ob,
      DepthBids = map (level_total h) (best_levels depthLimit (Bids ob)),
      DepthAsks = map (level_total h) (best_levels depthLimit (Asks ob))\<rparr>"
  by (simp add: GetDepth_def depth_side_take best_levels_def)

lemma level_entries:
  "(p, l) \<in> set t \<Longrightarrow> a \<in> set l \<Longrightarrow> (p, a) \<in> set (entry_list t)"
  by (auto simp: entry_list_mem)

text \<open>
  Claim C8. In every state the engine reaches and for every limit, the depth query of a
  symbol returns, for each side of the symbol's book, the entries of the first
  \<open>depthLimit\<close> levels when the limit is positive and of all levels otherwise, one entry
  per level in the order of the tree; and it changes nothing in the engine but to file an
  empty book for a symbol that had none. The levels of the bids are in strictly
  descending and those of the asks in strictly ascending order of price. Every level
  holds at least one order, every order in it has a positive remaining quantity, and the
  quantity of its entry is the sum of these remaining quantities as \<open>int64\<close> adds them:
  the integer sum reduced to 64 bits, which is the integer sum itself whenever that is
  below \<open>2^63\<close>.
\<close>

theorem GetOrderBookDepth_levels:
  assumes reach: "run rs (NewEngine h) = Some e"
  shows "GetOrderBookDepth symbol depthLimit e =
     (\<lparr>DepthSymbol = symbol,
       DepthBids = map (level_total (heap e)) (best_levels depthLimit (Bids (book_of e symbol))),
       DepthAsks = map (level_total (heap e)) (best_levels depthLimit (Asks (book_of e symbol)))\<rparr>,
      e\<lparr>OrderBooks := (OrderBooks e)(symbol \<mapsto> book_of e symbol)\<rparr>) \<and>
    sorted_wrt (\<lambda>p q. q <s p) (map fst (Bids (book_of e symbol))) \<and>
    sorted_wrt (\<lambda>p q. p <s q) (map fst (Asks (book_of e symbol))) \<and>
    (\<forall>lv \<in> set (Bids (book_of e symbol)) \<union> set (Asks (book_of e symbol)).
       snd lv \<noteq> [] \<and>
       (\<forall>a \<in> set (snd lv). 0 <s RemainingQuantity (heap e a)) \<and>
       snd (level_total (heap e) lv) =
         word_of_int (\<Sum>a\<leftarrow>snd lv. sint (RemainingQuantity (heap e a))) \<and>
       ((\<Sum>a\<leftarrow>snd lv. sint (RemainingQuantity (heap e a))) < 9223372036854775808 \<longrightarrow>
          sint (snd (level_total (heap e) lv)) = (\<Sum>a\<leftarrow>snd lv. sint (RemainingQuantity (heap e a)))))"
proof -
  let ?ob = "book_of e symbol"
  have ok: "engine_ok e" using reach by (rule reachable_ok)
  have bo: "book_ok (heap e) symbol ?ob" "BookSymbol ?ob = symbol"
    using book_of_ok [OF ok, of symbol] by simp_all
  have tb: "tree_ok True (Bids ?ob)" and ta: "tree_ok False (Asks ?ob)"
    using bo(1) by (simp_all add: book_ok_def)
  have 1: "GetOrderBookDepth symbol depthLimit e =
     (\<lparr>DepthSymbol = symbol,
       DepthBids = map (level_total (heap e)) (best_levels depthLimit (Bids ?ob)),
       DepthAsks = map (level_total (heap e)) (best_levels depthLimit (Asks ?ob))\<rparr>,
      e\<lparr>OrderBooks := (OrderBooks e)(symbol \<mapsto> ?ob)\<rparr>)"
    by (simp add: GetOrderBookDepth_def Let_def getOrderBook_eq GetDepth_eq bo(2))
  have 2: "sorted_wrt (\<lambda>p q. q <s p) (map fst (Bids ?ob))"
    using tb by (simp add: tree_ok_def comes_before_True)
  have 3: "sorted_wrt (\<lambda>p q. p <s q) (map fst (Asks ?ob))"
    using ta by (simp add: tree_ok_def comes_before_False)
  have 4: "snd lv \<noteq> [] \<and> (\<forall>a \<in> set (snd lv). 0 <s RemainingQuantity (heap e a))"
    if lv: "lv \<in> set (Bids ?ob) \<union> set (Asks ?ob)" for lv
  proof -
    obtain p l where e: "lv = (p, l)" by (cases lv)
    have ne: "l \<noteq> []" using lv tb ta unfolding e tree_ok_def by auto
    have "0 <s RemainingQuantity (heap e a)" if a: "a \<in> set l" for a
    proof -
      have "(p, a) \<in> set (entry_list (Bids ?ob)) \<or> (p, a) \<in> set (entry_list (Asks ?ob))"
        using lv a level_entries unfolding e by fastforce
      then have "a \<in> set (book_addrs ?ob)" unfolding book_addrs_mem by blast
      from resting_fields [OF bo(1) this] show ?thesis by simp
    qed
    then show ?thesis using ne by (simp add: e)
  qed
  have 5: "(\<Sum>a\<leftarrow>snd lv. sint (RemainingQuantity (heap e a))) < 9223372036854775808 \<longrightarrow>
          sint (snd (level_total (heap e) lv)) = (\<Sum>a\<leftarrow>snd lv. sint (RemainingQuantity (heap e a)))"
    if lv: "lv \<in> set (Bids ?ob) \<union> set (Asks ?ob)" for lv
    using 4 [OF lv] level_total_exact [of lv "heap e"] by blast
  show ?thesis
    using 1 2 3 4 5 level_total_wrap by blast
qed

text \<open>
  The quantity of an entry is not always the integer sum: two accepted bids of
  \<open>2^63 - 1\<close> and 1 at the same price give a level whose reported quantity is
  \<open>- 2^63\<close>.
\<close>

theorem GetOrderBookDepth_wraps:
  "case run [Submit ''a'' ''X'' Buy Limit 100 9223372036854775807 0,
             Submit ''b'' ''X'' Buy Limit 100 1 1]
            (NewEngine (\<lambda>a. NewOrder [] [] Buy Limit 0 0 0)) of
      None \<Rightarrow> False
    | Some e \<Rightarrow>
        Bids (book_of e ''X'') = [(100, [0, 1])] \<and>
        sint (RemainingQuantity (heap e 0)) = 9223372036854775807 \<and>
        sint (RemainingQuantity (heap e 1)) = 1 \<and>
        map (\<lambda>(p, q). (sint p, sint q)) (DepthBids (fst (GetOrderBookDepth ''X'' 0 e)))
          = [(100, - 9223372036854775808)]"
  by code_simp

theorem GetOrderBookDepth_levels_witness:
  "\<exists>e. run [Submit ''b1'' ''X'' Buy Limit 100 6 0, Submit ''b2'' ''X'' Buy Limit 101 4 1,
            Submit ''b3'' ''X'' Buy Limit 100 9 2, Submit ''s1'' ''X'' Sell Limit 102 9 3]
           (NewEngine (\<lambda>a. NewOrder [] [] Buy Limit 0 0 0)) = Some e \<and>
        Bids (book_of e ''X'') = [(101, [1]), (100, [0, 2])] \<and>
        DepthBids (fst (GetOrderBookDepth ''X'' 1 e)) = [(101, 4)] \<and>
        DepthBids (fst (GetOrderBookDepth ''X'' 0 e)) = [(101, 4), (100, 15)] \<and>
        DepthAsks (fst (GetOrderBookDepth ''X'' (- 1) e)) = [(102, 9)] \<and>
        sint (snd (level_total (heap e) (100, [0, 2]))) = 15"
proof -
  let ?rs = "[Submit ''b1'' ''X'' Buy Limit 100 6 0, Submit ''b2'' ''X'' Buy Limit 101 4 1,
            Submit ''b3'' ''X'' Buy Limit 100 9 2, Submit ''s1'' ''X'' Sell Limit 102 9 3]"
  let ?h = "\<lambda>a::nat. NewOrder [] [] Buy Limit 0 0 0"
  have c: "case run ?rs (NewEngine ?h) of None \<Rightarrow> False
    | Some e \<Rightarrow> Bids (book_of e ''X'') = [(101, [1]), (100, [0, 2])] \<and>
        Asks (book_of e ''X'') = [(102, [3])] \<and>
        map (\<lambda>a. RemainingQuantity (heap e a)) [0, 1, 2, 3] = [6, 4, 9, 9]"
    by code_simp
  then obtain e where r: "run ?rs (NewEngine ?h) = Some e"
    and b: "Bids (book_of e ''X'') = [(101, [1]), (100, [0, 2])]"
    and a: "Asks (book_of e ''X'') = [(102, [3])]"
    and q: "map (\<lambda>a. RemainingQuantity (heap e a)) [0, 1, 2, 3] = [6, 4, 9, 9]"
    by (auto split: option.splits)
  have q': "sint (RemainingQuantity (heap e 0)) = 6" "sint (RemainingQuantity (heap e 2)) = 9"
    using q by simp_all
  have "DepthBids (fst (GetOrderBookDepth ''X'' 1 e)) = [(101, 4)] \<and>
        DepthBids (fst (GetOrderBookDepth ''X'' 0 e)) = [(101, 4), (100, 15)] \<and>
        DepthAsks (fst (GetOrderBookDepth ''X'' (- 1) e)) = [(102, 9)] \<and>
        sint (snd (level_total (heap e) (100, [0, 2]))) = 15"
    using GetOrderBookDepth_levels [OF r, of "''X''" 1] GetOrderBookDepth_levels [OF r, of "''X''" 0]
      GetOrderBookDepth_levels [OF r, of "''X''" "- 1"] q q'
    by (simp add: b a best_levels_def level_total_def)
  then show ?thesis using r b by blast
qed

lemma trade_step:
  assumes ok: "book_ok (mem s) symbol (book s)"
    and fresh: "a \<notin> set (book_addrs (book s))"
    and qa: "quantities_ok (mem s a)" and qm: "quantities_ok (mem s m)"
    and pos: "0 <s RemainingQuantity (mem s a)"
    and hd: "entry_list (opposite_tree a s) = (p, m) # rest"
  shows "fills_trade a m (mem s) (mem (snd (executeTrade a m s))) (fst (executeTrade a m s))"
proof -
  let ?s' = "snd (executeTrade a m s)" and ?t = "fst (executeTrade a m s)"
  have oh: "m \<in> set (book_addrs (book s))"
    "Side (mem s m) = (if Side (mem s a) = Buy then Sell else Buy)"
    using opposite_head [OF ok hd] by simp_all
  have ne: "a \<noteq> m" using oh(1) fresh by auto
  have sd: "Side (mem s m) \<noteq> Side (mem s a)" using oh(2) by (cases "Side (mem s a)") simp_all
  have posm: "0 <s RemainingQuantity (mem s m)" using resting_fields [OF ok oh(1)] by simp
  note f = executeTrade_fills [OF ne sd qa qm]
  have b: "BuyerOrderID ?t = (if Side (mem s a) = Buy then ID (mem s a) else ID (mem s m))"
    using f sd by (cases "Side (mem s a)"; cases "Side (mem s m)") auto
  have sl: "SellerOrderID ?t = (if Side (mem s a) = Sell then ID (mem s a) else ID (mem s m))"
    using f sd by (cases "Side (mem s a)"; cases "Side (mem s m)") auto
  have q: "sint (FilledQuantity (mem ?s' x)) = sint (FilledQuantity (mem s x)) + sint (TradeQuantity ?t) \<and>
      sint (RemainingQuantity (mem ?s' x)) = sint (RemainingQuantity (mem s x)) - sint (TradeQuantity ?t)"
    if "x = a \<or> x = m" for x
    using f that by auto
  have fr: "mem ?s' x = mem s x" if "\<not> (x = a \<or> x = m)" for x
    using that executeTrade_frame [of x a m s] by simp
  show ?thesis
    unfolding fills_trade_def
    using pos posm sd f b sl q fr executeTrade_static [of a m s] by simp
qed

lemma opposite_static:
  "match_inv symbol a s0 s \<Longrightarrow>
   opposite_tree a s = (if Side (mem s0 a) = Buy then Asks (book s) else Bids (book s)) \<and>
   not_crossing a s m = not_crossing a s0 m"
proof -
  assume "match_inv symbol a s0 s"
  then have "static_eq (mem s a) (mem s0 a)" "static_eq (mem s m) (mem s0 m)"
    by (simp_all add: match_inv_def)
  then show ?thesis by (simp add: opposite_tree_def not_crossing_def static_eq_def)
qed

lemma fills_trade_maker:
  assumes "fills_trade i m h h' t"
  shows "sint (RemainingQuantity (h' m)) =
     sint (RemainingQuantity (h m)) - min (sint (RemainingQuantity (h i))) (sint (RemainingQuantity (h m)))"
proof -
  have "sint (TradeQuantity t) = min (sint (RemainingQuantity (h i))) (sint (RemainingQuantity (h m)))"
    using assms by (simp add: fills_trade_def)
  moreover have "if m = i \<or> m = m
           then sint (FilledQuantity (h' m)) = sint (FilledQuantity (h m)) + sint (TradeQuantity t) \<and>
                sint (RemainingQuantity (h' m)) = sint (RemainingQuantity (h m)) - sint (TradeQuantity t) \<and>
                static_eq (h' m) (h m)
           else h' m = h m"
    using assms unfolding fills_trade_def by blast
  ultimately show ?thesis by simp
qed

lemma opposite_distinct:
  assumes "book_ok h symbol (book s0)"
  shows "distinct (map snd (entry_list (opposite_tree a s0)))"
proof -
  have "distinct (map snd (entry_list (Bids (book s0))) @ map snd (entry_list (Asks (book s0))))"
    using assms by (simp add: book_ok_def book_addrs_def)
  then show ?thesis by (simp add: opposite_tree_def)
qed

lemma opposite_addrs:
  "k < length (entry_list (opposite_tree a s0)) \<Longrightarrow>
   snd (entry_list (opposite_tree a s0) ! k) \<in> set (book_addrs (book s0))"
proof -
  assume k: "k < length (entry_list (opposite_tree a s0))"
  then have "map snd (entry_list (opposite_tree a s0)) ! k \<in> set (map snd (entry_list (opposite_tree a s0)))"
    by (intro nth_mem) simp
  then show ?thesis using k unfolding book_addrs_def opposite_tree_def
    by (auto split: if_splits)
qed

lemma trace_step:
  assumes inv: "match_inv symbol a s0 s"
    and tr: "match_trace isLimit a s0 tr s hs"
    and q0: "\<forall>x. x = a \<or> x \<in> set (book_addrs (book s0)) \<longrightarrow> quantities_ok (mem s0 x)"
    and ok0: "book_ok (mem s0) symbol (book s0)"
    and fresh0: "a \<notin> set (book_addrs (book s0))"
    and pos: "0 <s RemainingQuantity (mem s a)"
    and hd: "entry_list (opposite_tree a s) = (p, m) # rest"
    and cross: "\<not> (isLimit \<and> not_crossing a s m)"
  shows "match_trace isLimit a s0 (tr @ [fst (executeTrade a m s)]) (snd (executeTrade a m s))
           (hs @ [mem (snd (executeTrade a m s))])"
proof -
  let ?s' = "snd (executeTrade a m s)" and ?t = "fst (executeTrade a m s)"
  let ?E = "entry_list (opposite_tree a s0)"
  let ?n = "length tr"
  have ok: "book_ok (mem s) symbol (book s)" and fresh: "a \<notin> set (book_addrs (book s))"
    and sub: "set (book_addrs (book s)) \<subseteq> set (book_addrs (book s0))"
    and stat: "\<forall>x. static_eq (mem s x) (mem s0 x) \<and> quantities_step (mem s0 x) (mem s x)"
    using inv by (simp_all add: match_inv_def)
  have len: "length hs = Suc ?n" and h0: "hs ! 0 = mem s0" and hn: "hs ! ?n = mem s"
    and le: "?n \<le> length ?E"
    and old: "\<forall>k<?n. fills_trade a (snd (?E ! k)) (hs ! k) (hs ! Suc k) (tr ! k) \<and>
         TradePrice (tr ! k) = fst (?E ! k) \<and>
         maker_id (Side (mem s0 a)) (tr ! k) = ID (mem s0 (snd (?E ! k))) \<and>
         (isLimit \<longrightarrow> \<not> not_crossing a s0 (snd (?E ! k)))"
    using tr by (simp_all add: match_trace_def)
  have "RemainingQuantity (mem s a) \<noteq> 0" using pos by (auto simp: word_sless_alt)
  then have cur: "entry_list (opposite_tree a s) = drop ?n ?E"
    and zero: "\<forall>k<?n. RemainingQuantity (mem s (snd (?E ! k))) = 0"
    using tr unfolding match_trace_def by blast+
  have dr: "drop ?n ?E = (p, m) # rest" using cur hd by simp
  then have lt: "?n < length ?E" by (cases "?n < length ?E") auto
  have En: "?E ! ?n = (p, m)" using dr lt by (metis nth_via_drop)
  have rest: "rest = drop (Suc ?n) ?E" using dr by (metis drop_Suc tl_drop list.sel(3))
  have oh: "m \<in> set (book_addrs (book s))" using opposite_head [OF ok hd] by simp
  have ne: "a \<noteq> m" using oh fresh by auto
  have m0: "m \<in> set (book_addrs (book s0))" using oh sub by auto
  have qa: "quantities_ok (mem s a)" and qm: "quantities_ok (mem s m)"
    using q0 m0 stat by (auto simp: quantities_step_def)
  have ft: "fills_trade a m (mem s) (mem ?s') ?t"
    using ok fresh qa qm pos hd by (rule trade_step)
  have nc: "isLimit \<longrightarrow> \<not> not_crossing a s0 m"
    using cross opposite_static [OF inv, of m] by simp
  have dist: "distinct (map snd ?E)" using ok0 by (rule opposite_distinct)
  have other: "snd (?E ! k) \<noteq> m \<and> snd (?E ! k) \<noteq> a" if k: "k < ?n" for k
  proof -
    have "k < length (map snd ?E)" "?n < length (map snd ?E)" "k \<noteq> ?n" using k lt by simp_all
    then have "map snd ?E ! k \<noteq> map snd ?E ! ?n"
      using dist nth_eq_iff_index_eq by blast
    then have 1: "snd (?E ! k) \<noteq> m" using En k lt by simp
    have "snd (?E ! k) \<in> set (book_addrs (book s0))" using k lt by (intro opposite_addrs) simp
    then show ?thesis using 1 fresh0 by auto
  qed
  have keep: "RemainingQuantity (mem ?s' (snd (?E ! k))) = 0" if k: "k < ?n" for k
    using other [OF k] zero k executeTrade_frame [of "snd (?E ! k)" a m s] by simp
  have A: "length (hs @ [mem ?s']) = Suc (length (tr @ [?t]))" using len by simp
  have B: "(hs @ [mem ?s']) ! 0 = mem s0" using h0 len by (simp add: nth_append)
  have C: "(hs @ [mem ?s']) ! length (tr @ [?t]) = mem ?s'" using len by (simp add: nth_append)
  have D: "length (tr @ [?t]) \<le> length ?E" using lt by simp
  have pr: "TradePrice ?t = p"
    using ft opposite_head [OF ok hd] by (simp add: fills_trade_def)
  have sa: "Side (mem s a) = Side (mem s0 a)" and im: "ID (mem s m) = ID (mem s0 m)"
    using stat by (simp_all add: static_eq_def)
  have mk: "maker_id (Side (mem s0 a)) ?t = ID (mem s0 m)"
    using ft sa im by (cases "Side (mem s0 a)") (simp_all add: fills_trade_def maker_id_def)
  have E: "fills_trade a (snd (?E ! k)) ((hs @ [mem ?s']) ! k) ((hs @ [mem ?s']) ! Suc k) ((tr @ [?t]) ! k) \<and>
         TradePrice ((tr @ [?t]) ! k) = fst (?E ! k) \<and>
         maker_id (Side (mem s0 a)) ((tr @ [?t]) ! k) = ID (mem s0 (snd (?E ! k))) \<and>
         (isLimit \<longrightarrow> \<not> not_crossing a s0 (snd (?E ! k)))"
    if k: "k < length (tr @ [?t])" for k
  proof (cases "k < ?n")
    case True
    then show ?thesis using old len by (simp add: nth_append)
  next
    case False
    then have "k = ?n" using k by simp
    then show ?thesis using ft nc En hn len pr mk by (simp add: nth_append)
  qed
  have side: "opposite_tree a ?s' = (if Side (mem s a) = Buy then Asks (book ?s') else Bids (book ?s'))"
    using executeTrade_static [of a m s a] by (simp add: opposite_tree_def static_eq_def)
  have F: "(entry_list (opposite_tree a ?s') = drop (length (tr @ [?t])) ?E \<and>
        (\<forall>k<length (tr @ [?t]). RemainingQuantity (mem ?s' (snd (?E ! k))) = 0)) \<or>
       (tr @ [?t] \<noteq> [] \<and> RemainingQuantity (mem ?s' a) = 0 \<and>
        entry_list (opposite_tree a ?s') = drop (length (tr @ [?t]) - 1) ?E \<and>
        (\<forall>k<length (tr @ [?t]) - 1. RemainingQuantity (mem ?s' (snd (?E ! k))) = 0) \<and>
        0 <s RemainingQuantity (mem ?s' (snd (?E ! (length (tr @ [?t]) - 1)))))"
  proof (cases "RemainingQuantity (mem s a) <s RemainingQuantity (mem s m)")
    case True
    have sp: "book ?s' = book s" "RemainingQuantity (mem ?s' a) = 0"
      using step_partial [OF ok fresh hd pos True] by blast+
    have "opposite_tree a ?s' = opposite_tree a s"
      using sp(1) executeTrade_static [of a m s a] by (simp add: opposite_tree_def static_eq_def)
    then have e: "entry_list (opposite_tree a ?s') = drop ?n ?E"
      using cur by simp
    have "sint (RemainingQuantity (mem ?s' m)) =
        sint (RemainingQuantity (mem s m)) - min (sint (RemainingQuantity (mem s a))) (sint (RemainingQuantity (mem s m)))"
      using ft by (rule fills_trade_maker)
    then have "0 <s RemainingQuantity (mem ?s' m)" using True by (simp add: word_sless_alt)
    then show ?thesis using sp(2) e keep En by simp
  next
    case False
    have sf: "entry_list (opposite_tree a ?s') = rest"
      using step_full [OF ok fresh hd False] by blast
    have "sint (RemainingQuantity (mem ?s' m)) =
        sint (RemainingQuantity (mem s m)) - min (sint (RemainingQuantity (mem s a))) (sint (RemainingQuantity (mem s m)))"
      using ft by (rule fills_trade_maker)
    then have "sint (RemainingQuantity (mem ?s' m)) = 0" using False by (simp add: word_sless_alt)
    then have "RemainingQuantity (mem ?s' m) = 0" by (simp add: sint_eq0)
    then have "\<forall>k<Suc ?n. RemainingQuantity (mem ?s' (snd (?E ! k))) = 0"
      using keep En by (auto simp: less_Suc_eq)
    then show ?thesis using sf rest by simp
  qed
  show ?thesis
    unfolding match_trace_def using A B C D E F by blast
qed

lemma match_trace_init:
  "match_trace isLimit a s0 [] s0 [mem s0]"
  by (simp add: match_trace_def)

lemma match_loop_trace:
  assumes ok: "book_ok (mem s0) symbol (book s0)" and fresh: "a \<notin> set (book_addrs (book s0))"
    and q0: "\<forall>x. x = a \<or> x \<in> set (book_addrs (book s0)) \<longrightarrow> quantities_ok (mem s0 x)"
  shows "\<exists>tr s' hs. match_loop isLimit a [] s0 = Some (tr, s') \<and> match_inv symbol a s0 s' \<and>
           loop_done isLimit a s' \<and> match_trace isLimit a s0 tr s' hs"
proof -
  have "\<exists>tr s'. match_loop isLimit a [] s0 = Some (tr, s') \<and>
          (\<lambda>tr s. match_inv symbol a s0 s \<and> (\<exists>hs. match_trace isLimit a s0 tr s hs)) tr s' \<and>
          loop_done isLimit a s'"
  proof (rule match_loop_rule [where symbol = symbol])
    show "match_inv symbol a s0 s0 \<and> (\<exists>hs. match_trace isLimit a s0 [] s0 hs)"
      using match_inv_init [OF ok fresh] match_trace_init by blast
    show "book_ok (mem s) symbol (book s) \<and> a \<notin> set (book_addrs (book s))"
      if "match_inv symbol a s0 s \<and> (\<exists>hs. match_trace isLimit a s0 tr s hs)" for tr s
      using that by (simp add: match_inv_def)
    show "match_inv symbol a s0 (snd (executeTrade a m s)) \<and>
          (\<exists>hs. match_trace isLimit a s0 (tr @ [fst (executeTrade a m s)]) (snd (executeTrade a m s)) hs)"
      if I: "match_inv symbol a s0 s \<and> (\<exists>hs. match_trace isLimit a s0 tr s hs)"
        and pos: "0 <s RemainingQuantity (mem s a)"
        and hd: "entry_list (opposite_tree a s) = (p, m) # rest"
        and cross: "\<not> (isLimit \<and> not_crossing a s m)" for tr s p m rest
    proof -
      from I obtain hs where inv: "match_inv symbol a s0 s" and t: "match_trace isLimit a s0 tr s hs"
        by blast
      have 1: "match_inv symbol a s0 (snd (executeTrade a m s))"
        using inv pos hd by (rule match_inv_step)
      have 2: "match_trace isLimit a s0 (tr @ [fst (executeTrade a m s)]) (snd (executeTrade a m s))
           (hs @ [mem (snd (executeTrade a m s))])"
        using inv t q0 ok fresh pos hd cross by (rule trace_step)
      show ?thesis using 1 2 by blast
    qed
  qed
  then show ?thesis by blast
qed

lemma submit_matched:
  assumes ok: "engine_ok e"
    and sub: "submit oid symbol side ty price qty now e = Some (Inr (a, trades), e')"
  shows "a = next_addr e \<and> Validate (NewOrder oid symbol side ty price qty now) = None \<and>
     \<not> illiquid (allocate (NewOrder oid symbol side ty price qty now) e) a \<and>
     (\<exists>s1 hs.
        match_loop (ty = Limit) a [] (start_matching (allocate (NewOrder oid symbol side ty price qty now) e) symbol)
          = Some (trades, s1) \<and>
        match_inv symbol a (start_matching (allocate (NewOrder oid symbol side ty price qty now) e) symbol) s1 \<and>
        loop_done (ty = Limit) a s1 \<and>
        match_trace (ty = Limit) a
          (start_matching (allocate (NewOrder oid symbol side ty price qty now) e) symbol) trades s1 hs \<and>
        e' = commit (allocate (NewOrder oid symbol side ty price qty now) e) a (finish_order a trades s1))"
proof -
  let ?ord = "NewOrder oid symbol side ty price qty now"
  let ?e0 = "allocate ?ord e"
  let ?n = "next_addr e"
  let ?s0 = "start_matching ?e0 symbol"
  have ord: "heap ?e0 ?n = ?ord" by (simp add: allocate_def)
  have flds: "Symbol ?ord = symbol" "Type ?ord = ty" by (simp_all add: NewOrder_def)
  have ok0: "engine_ok ?e0" and ub: "unbooked ?e0 ?n"
    using allocate_ok [OF ok NewOrder_quantities] by blast+
  have p: "ProcessOrder ?n ?e0 = Some (Inr (a, trades), e')" using sub by (simp add: submit_def)
  have v: "Validate (heap ?e0 ?n) = None"
  proof (cases "Validate (heap ?e0 ?n)")
    case (Some err)
    then show ?thesis using p ProcessOrder_invalid [OF Some] by simp
  qed simp
  have nl: "\<not> illiquid ?e0 ?n"
  proof
    assume il: "illiquid ?e0 ?n"
    then have t: "Type (heap ?e0 ?n) = Market"
      and l: "CalculateLiquidity (heap ?e0) (Side (heap ?e0 ?n)) (OriginalQuantity (heap ?e0 ?n))
           (book_of ?e0 (Symbol (heap ?e0 ?n))) <s OriginalQuantity (heap ?e0 ?n)"
      by (simp_all add: illiquid_def)
    show False using p unfolding ProcessOrder_illiquid [OF v t l] by simp
  qed
  have bo: "book_ok (mem ?s0) symbol (book ?s0)"
    using book_of_ok [OF ok0, of symbol] by (simp add: start_matching_def)
  have fr: "?n \<notin> set (book_addrs (book ?s0))"
    using book_of_unbooked [OF ub] by (simp add: start_matching_def)
  have q0: "\<forall>x. x = ?n \<or> x \<in> set (book_addrs (book ?s0)) \<longrightarrow> quantities_ok (mem ?s0 x)"
  proof (intro allI impI)
    fix x assume x: "x = ?n \<or> x \<in> set (book_addrs (book ?s0))"
    have 1: "x < next_addr ?e0"
      using x book_of_ok [OF ok0, of symbol] by (auto simp: start_matching_def allocate_def)
    have 2: "0 <s OriginalQuantity (heap ?e0 x)"
    proof (cases "x = ?n")
      case True
      then show ?thesis using Validate_pos [OF v] by simp
    next
      case False
      then have "x \<in> set (book_addrs (book_of ?e0 symbol))" using x by (simp add: start_matching_def)
      from resting_fields [OF _ this] book_of_ok [OF ok0, of symbol] show ?thesis by blast
    qed
    show "quantities_ok (mem ?s0 x)" using ok0 1 2 by (simp add: engine_ok_def start_matching_def)
  qed
  obtain tr s1 hs where m: "match_loop (ty = Limit) ?n [] ?s0 = Some (tr, s1)"
    and inv: "match_inv symbol ?n ?s0 s1" and dn: "loop_done (ty = Limit) ?n s1"
    and t: "match_trace (ty = Limit) ?n ?s0 tr s1 hs"
    using match_loop_trace [OF bo fr q0] by blast
  have "ProcessOrder ?n ?e0 = Some (Inr (?n, tr), commit ?e0 ?n (finish_order ?n tr s1))"
    using ProcessOrder_commit [OF v nl] m by (simp add: ord flds)
  then have eq: "a = ?n" "trades = tr" "e' = commit ?e0 ?n (finish_order ?n tr s1)"
    using p by simp_all
  show ?thesis
    using v nl m inv dn t unfolding eq ord by blast
qed

text \<open>
  Claim C2. In every state the engine reaches, a submission that succeeds returns trades
  of the submitted order (the object allocated for it) against the orders resting on the
  opposite side of the symbol's book, the \<open>k\<close>-th trade against the \<open>k\<close>-th of them
  in book order. There is a memory before the first trade (the engine's, with the new
  order) and after each trade, the last one being the engine's memory after the
  submission up to the status of the submitted order, such that each trade is a fill in
  the sense of \<open>fills_trade\<close>: its price is the price of the resting order, its quantity
  the smaller of the two remaining quantities before the trade, its buyer the order with
  side Buy and its seller the one with side Sell, and the filled quantity of both orders
  grows and their remaining quantity shrinks by the quantity of the trade.
\<close>

theorem submit_trades:
  assumes reach: "run rs (NewEngine h) = Some e"
    and sub: "submit oid symbol side ty price qty now e = Some (Inr (a, trades), e')"
  shows "a = next_addr e \<and>
     length trades \<le> length (entry_list (if side = Buy then Asks (book_of e symbol) else Bids (book_of e symbol))) \<and>
     (\<exists>hs. length hs = Suc (length trades) \<and>
        hs ! 0 = (heap e)(a := NewOrder oid symbol side ty price qty now) \<and>
        (\<exists>st. heap e' = set_status (hs ! length trades) a st) \<and>
        (\<forall>k<length trades.
           fills_trade a
             (snd (entry_list (if side = Buy then Asks (book_of e symbol) else Bids (book_of e symbol)) ! k))
             (hs ! k) (hs ! Suc k) (trades ! k)))"
proof -
  let ?ord = "NewOrder oid symbol side ty price qty now"
  let ?e0 = "allocate ?ord e"
  let ?s0 = "start_matching ?e0 symbol"
  have ok: "engine_ok e" using reach by (rule reachable_ok)
  from submit_matched [OF ok sub] obtain s1 hs where a: "a = next_addr e"
    and t: "match_trace (ty = Limit) a ?s0 trades s1 hs"
    and e': "e' = commit ?e0 a (finish_order a trades s1)"
    by blast
  have h0: "mem ?s0 = (heap e)(a := ?ord)" by (simp add: start_matching_def allocate_def a)
  have opp: "opposite_tree a ?s0 = (if side = Buy then Asks (book_of e symbol) else Bids (book_of e symbol))"
    by (simp add: opposite_tree_def start_matching_def allocate_def a NewOrder_def)
  obtain st where "mem (finish_order a trades s1) = set_status (mem s1) a st"
    using finish_order_mem by blast
  then have fin: "heap e' = set_status (mem s1) a st" by (simp add: e' commit_def)
  have 1: "length hs = Suc (length trades)" "hs ! 0 = (heap e)(a := ?ord)" "hs ! length trades = mem s1"
    "length trades \<le> length (entry_list (if side = Buy then Asks (book_of e symbol) else Bids (book_of e symbol)))"
    using t unfolding match_trace_def opp h0 by simp_all
  have 2: "\<forall>k<length trades.
           fills_trade a
             (snd (entry_list (if side = Buy then Asks (book_of e symbol) else Bids (book_of e symbol)) ! k))
             (hs ! k) (hs ! Suc k) (trades ! k)"
    using t unfolding match_trace_def opp by simp
  have 3: "\<exists>st. heap e' = set_status (hs ! length trades) a st" using fin 1(3) by auto
  show ?thesis using a 1 2 3 by blast
qed

theorem submit_trades_witness:
  "\<exists>e e' hs.
     run [Submit ''s1'' ''X'' Sell Limit 100 5 0, Submit ''s2'' ''X'' Sell Limit 101 5 1]
         (NewEngine (\<lambda>a. NewOrder [] [] Buy Limit 0 0 0)) = Some e \<and>
     submit ''b1'' ''X'' Buy Limit 105 7 2 e =
       Some (Inr (2, [\<lparr>BuyerOrderID = ''b1'', SellerOrderID = ''s1'', TradePrice = 100, TradeQuantity = 5\<rparr>,
                      \<lparr>BuyerOrderID = ''b1'', SellerOrderID = ''s2'', TradePrice = 101, TradeQuantity = 2\<rparr>]), e') \<and>
     entry_list (Asks (book_of e ''X'')) = [(100, 0), (101, 1)] \<and>
     length hs = 3 \<and>
     fills_trade 2 0 (hs ! 0) (hs ! 1)
       \<lparr>BuyerOrderID = ''b1'', SellerOrderID = ''s1'', TradePrice = 100, TradeQuantity = 5\<rparr> \<and>
     fills_trade 2 1 (hs ! 1) (hs ! 2)
       \<lparr>BuyerOrderID = ''b1'', SellerOrderID = ''s2'', TradePrice = 101, TradeQuantity = 2\<rparr>"
proof -
  let ?rs = "[Submit ''s1'' ''X'' Sell Limit 100 5 0, Submit ''s2'' ''X'' Sell Limit 101 5 1]"
  let ?t1 = "\<lparr>BuyerOrderID = ''b1'', SellerOrderID = ''s1'', TradePrice = 100, TradeQuantity = 5\<rparr>"
  let ?t2 = "\<lparr>BuyerOrderID = ''b1'', SellerOrderID = ''s2'', TradePrice = 101, TradeQuantity = 2\<rparr>"
  have c: "case run ?rs (NewEngine (\<lambda>a. NewOrder [] [] Buy Limit 0 0 0)) of
      None \<Rightarrow> False
    | Some e \<Rightarrow>
       entry_list (Asks (book_of e ''X'')) = [(100, 0), (101, 1)] \<and>
       (case submit ''b1'' ''X'' Buy Limit 105 7 2 e of
          Some (Inr (a, trades), e') \<Rightarrow> a = 2 \<and> trades = [?t1, ?t2]
        | _ \<Rightarrow> False)"
    by code_simp
  then obtain e where r: "run ?rs (NewEngine (\<lambda>a. NewOrder [] [] Buy Limit 0 0 0)) = Some e"
    and el: "entry_list (Asks (book_of e ''X'')) = [(100, 0), (101, 1)]"
    and c2: "case submit ''b1'' ''X'' Buy Limit 105 7 2 e of
          Some (Inr (a, trades), e') \<Rightarrow> a = 2 \<and> trades = [?t1, ?t2]
        | _ \<Rightarrow> False"
    by (auto split: option.splits)
  from c2 obtain e' where s: "submit ''b1'' ''X'' Buy Limit 105 7 2 e = Some (Inr (2, [?t1, ?t2]), e')"
    by (auto split: option.splits sum.splits prod.splits)
  from submit_trades [OF r s] obtain hs where raw: "length hs = Suc (length [?t1, ?t2])"
    "\<forall>k<length [?t1, ?t2].
       fills_trade 2 (snd (entry_list (if Buy = Buy then Asks (book_of e ''X'') else Bids (book_of e ''X'')) ! k))
         (hs ! k) (hs ! Suc k) ([?t1, ?t2] ! k)"
    by blast
  have 1: "length hs = 3" using raw(1) by simp
  have "fills_trade 2 0 (hs ! 0) (hs ! 1) ?t1" using raw(2) [rule_format, of 0] by (simp add: el)
  moreover have "fills_trade 2 1 (hs ! 1) (hs ! 2) ?t2"
    using raw(2) [rule_format, of 1] by (simp add: el numeral_2_eq_2)
  ultimately show ?thesis using r s el 1 by blast
qed

end
